theory Spec2Isabelle
  imports Main
begin

section \<open>Python strings and display width\<close>

text \<open>
  A Python \<open>str\<close> is a sequence of Unicode code points; \<open>len\<close> counts code points and
  slicing cuts between them. Code points are natural numbers here, so that wide characters
  (beyond one byte) can be written down. \<open>u\<close> turns an ASCII literal into such a string.
\<close>

type_synonym codepoint = nat
type_synonym pystr = "codepoint list"

definition u :: "string \<Rightarrow> pystr" where
  "u s = map of_char s"

definition space :: codepoint where
  "space = 32"

definition newline :: codepoint where
  "newline = 10"

text \<open>
  \<open>str.isspace\<close> on one code point, the characters \<open>str.split()\<close> splits at: the list of
  CPython's \<open>_PyUnicode_IsWhitespace\<close>.
\<close>

definition isspace :: "codepoint \<Rightarrow> bool" where
  "isspace c \<longleftrightarrow>
     (9 \<le> c \<and> c \<le> 13) \<or> (28 \<le> c \<and> c \<le> 32) \<or> c = 133 \<or> c = 160 \<or> c = 5760 \<or>
     (8192 \<le> c \<and> c \<le> 8202) \<or> c = 8232 \<or> c = 8233 \<or> c = 8239 \<or> c = 8287 \<or> c = 12288"

text \<open>
  \<open>text.split()\<close>: the maximal runs of non-whitespace characters, in order. The first
  argument is the word being read.
\<close>

fun split_from :: "pystr \<Rightarrow> pystr \<Rightarrow> pystr list" where
  "split_from cur [] = (if cur = [] then [] else [cur])"
| "split_from cur (c # cs) =
     (if isspace c then (if cur = [] then split_from [] cs else cur # split_from [] cs)
      else split_from (cur @ [c]) cs)"

definition split :: "pystr \<Rightarrow> pystr list" where
  "split text = split_from [] text"

text \<open>\<open>sep.join(parts)\<close>.\<close>

fun join :: "pystr \<Rightarrow> pystr list \<Rightarrow> pystr" where
  "join sep [] = []"
| "join sep [p] = p"
| "join sep (p # q # ps) = p @ sep @ join sep (q # ps)"

text \<open>
  \<open>wcswidth\<close> of the \<open>wcwidth\<close> package, which is not part of the repository. The width
  of one character is a parameter \<open>wcw\<close> of everything below (the package's table gives
  \<open>-1\<close> for a control character, \<open>0\<close> for a combining one, \<open>2\<close> for a wide one and \<open>1\<close>
  otherwise); the width of a string is the sum of its characters' widths, and \<open>-1\<close> as
  soon as one character has a negative width.
\<close>

fun wcswidth_from :: "(codepoint \<Rightarrow> int) \<Rightarrow> int \<Rightarrow> pystr \<Rightarrow> int" where
  "wcswidth_from wcw width [] = width"
| "wcswidth_from wcw width (c # cs) =
     (if wcw c < 0 then - 1 else wcswidth_from wcw (width + wcw c) cs)"

definition wcswidth :: "(codepoint \<Rightarrow> int) \<Rightarrow> pystr \<Rightarrow> int" where
  "wcswidth wcw s = wcswidth_from wcw 0 s"

text \<open>
  A width table for the examples: the C0 and C1 control characters (NUL apart) have no
  width, the combining diacritical marks U+0300 to U+036F are zero-width, the CJK unified
  ideographs U+4E00 to U+9FFF are wide, every other character counts one column. Only the
  code points named here are used with it.
\<close>

definition wcwidth :: "codepoint \<Rightarrow> int" where
  "wcwidth c =
     (if c = 0 then 0
      else if c < 32 \<or> (127 \<le> c \<and> c < 160) then - 1
      else if 768 \<le> c \<and> c \<le> 879 then 0
      else if 19968 \<le> c \<and> c \<le> 40959 then 2
      else 1)"

section \<open>Wrapping: \<open>LogLineFormatter._wrap_text\<close>\<close>

datatype error = KeyError | IndexError | AttributeError | TypeError | RecursionError

text \<open>\<open>range(0, n, step)\<close> for a positive step.\<close>

definition range_step :: "nat \<Rightarrow> nat \<Rightarrow> nat list" where
  "range_step n step = map (\<lambda>k. k * step) [0 ..< (n + step - 1) div step]"

text \<open>
  \<open>[text[i:i+max_width] for i in range(0, len(text), max_width)]\<close>: slices of
  \<open>max_width\<close> code points.
\<close>

definition char_wrap :: "pystr \<Rightarrow> nat \<Rightarrow> pystr list" where
  "char_wrap text max_width =
     map (\<lambda>i. take max_width (drop i text)) (range_step (length text) max_width)"

text \<open>
  The state of the word loop: \<open>lines\<close>, \<open>current_line\<close> (a list of pieces joined when the
  line is closed) and \<open>current_width\<close>.
\<close>

type_synonym wrap_state = "pystr list \<times> pystr list \<times> int"

text \<open>
  One turn of \<open>for word in words\<close>. \<open>wrapped_word[-1]\<close> raises \<open>IndexError\<close> on an empty
  list.
\<close>

fun wrap_word :: "(codepoint \<Rightarrow> int) \<Rightarrow> nat \<Rightarrow> wrap_state \<Rightarrow> pystr \<Rightarrow> error + wrap_state" where
  "wrap_word wcw max_width (lines, current_line, current_width) word =
     (let word_width = wcswidth wcw word in
      if current_width + (if current_line \<noteq> [] then 1 else 0) + word_width \<le> int max_width
      then
        (let (current_line1, current_width1) =
               (if current_line \<noteq> [] then (current_line @ [[space]], current_width + 1)
                else (current_line, current_width))
         in Inr (lines, current_line1 @ [word], current_width1 + word_width))
      else
        (let (lines1, current_line1, current_width1) =
               (if current_line \<noteq> [] then (lines @ [concat current_line], [], 0)
                else (lines, current_line, current_width))
         in if word_width > int max_width then
              (let wrapped_word = char_wrap word max_width in
               if wrapped_word = [] then Inl IndexError
               else Inr (lines1 @ butlast wrapped_word, [last wrapped_word],
                         wcswidth wcw (last wrapped_word)))
            else Inr (lines1, [word], word_width)))"

fun wrap_words :: "(codepoint \<Rightarrow> int) \<Rightarrow> nat \<Rightarrow> wrap_state \<Rightarrow> pystr list \<Rightarrow> error + wrap_state" where
  "wrap_words wcw max_width st [] = Inr st"
| "wrap_words wcw max_width st (word # words) =
     (case wrap_word wcw max_width st word of
        Inl e \<Rightarrow> Inl e
      | Inr st' \<Rightarrow> wrap_words wcw max_width st' words)"

definition wrap_text :: "(codepoint \<Rightarrow> int) \<Rightarrow> pystr \<Rightarrow> int \<Rightarrow> bool \<Rightarrow> error + pystr list" where
  "wrap_text wcw text max_width word_wrap =
     (if text = [] \<or> max_width \<le> 0 then Inr []
      else if \<not> word_wrap then Inr (char_wrap text (nat max_width))
      else
        (case wrap_words wcw (nat max_width) ([], [], 0) (split text) of
           Inl e \<Rightarrow> Inl e
         | Inr (lines, current_line, current_width) \<Rightarrow>
             Inr (if current_line \<noteq> [] then lines @ [concat current_line] else lines)))"

section \<open>Properties of the slices\<close>

lemma div_add_one: "0 < (n::nat) \<Longrightarrow> ((a::nat) + n) div n = Suc (a div n)"
  using div_add_self2[of n a] by simp

lemma range_count: 
  assumes "0 < n" "0 < k"
  shows "(k + n - 1) div n = Suc ((k - n + n - 1) div n)"
proof (cases "k \<le> n")
  case True
  have e: "k + n - 1 = (k - 1) + n" using assms by arith
  have z1: "(k - 1) div n = 0" using True assms by (intro div_less) arith
  have z2: "(k - n + n - 1) div n = 0" using True assms by (intro div_less) arith
  show ?thesis unfolding e div_add_one[OF assms(1)] z1 z2 ..
next
  case False
  then have e: "k + n - 1 = (k - n + n - 1) + n" using assms by arith
  show ?thesis by (subst e) (rule div_add_one[OF assms(1)])
qed

lemma upt_0_Suc: "[0 ..< Suc m] = 0 # map Suc [0 ..< m]"
  by (metis map_Suc_upt upt_conv_Cons zero_less_Suc)

lemma range_step_rec: 
  assumes "0 < n" "0 < k" 
  shows "range_step k n = 0 # map (\<lambda>i. i + n) (range_step (k - n) n)"
  unfolding range_step_def range_count[OF assms] upt_0_Suc by (simp add: comp_def)

lemma char_wrap_Nil: "char_wrap [] n = []"
  by (cases n) (simp_all add: char_wrap_def range_step_def)

lemma char_wrap_rec: "0 < n \<Longrightarrow> s \<noteq> [] \<Longrightarrow> char_wrap s n = take n s # char_wrap (drop n s) n"
  by (simp add: char_wrap_def range_step_rec comp_def add.commute)
lemma concat_char_wrap: "0 < n \<Longrightarrow> concat (char_wrap s n) = s"
proof (induction s rule: length_induct)
  case (1 s)
  show ?case
  proof (cases "s = []")
    case True
    then show ?thesis by (simp add: char_wrap_Nil)
  next
    case False
    with 1 have "concat (char_wrap (drop n s) n) = drop n s" by simp
    with False 1(2) show ?thesis by (simp add: char_wrap_rec)
  qed
qed

lemma char_wrap_eq_Nil: "0 < n \<Longrightarrow> char_wrap s n = [] \<longleftrightarrow> s = []"
  by (cases "s = []") (simp_all add: char_wrap_Nil char_wrap_rec)

lemma char_wrap_elem: "0 < n \<Longrightarrow> l \<in> set (char_wrap s n) \<Longrightarrow> l \<noteq> [] \<and> length l \<le> n \<and> set l \<subseteq> set s"
proof (induction s rule: length_induct)
  case (1 s)
  show ?case
  proof (cases "s = []")
    case True
    with 1(3) show ?thesis by (simp add: char_wrap_Nil)
  next
    case False
    with 1(2,3) have "l = take n s \<or> l \<in> set (char_wrap (drop n s) n)"
      by (simp add: char_wrap_rec)
    then show ?thesis
    proof
      assume "l = take n s"
      with False 1(2) show ?thesis by (auto dest: in_set_takeD)
    next
      assume a: "l \<in> set (char_wrap (drop n s) n)"
      have "length (drop n s) < length s" using False 1(2) by simp
      with 1(1) 1(2) a have "l \<noteq> [] \<and> length l \<le> n \<and> set l \<subseteq> set (drop n s)" by blast
      then show ?thesis by (auto dest: in_set_dropD)
    qed
  qed
qed

lemma char_wrap_butlast: "0 < n \<Longrightarrow> l \<in> set (butlast (char_wrap s n)) \<Longrightarrow> length l = n"
proof (induction s rule: length_induct)
  case (1 s)
  show ?case
  proof (cases "s = []")
    case True
    with 1(3) show ?thesis by (simp add: char_wrap_Nil)
  next
    case False
    show ?thesis
    proof (cases "drop n s = []")
      case True
      with False 1(2,3) show ?thesis by (simp add: char_wrap_rec char_wrap_Nil)
    next
      case d: False
      then have "char_wrap (drop n s) n \<noteq> []" using 1(2) by (simp add: char_wrap_eq_Nil)
      with False 1(2,3) have "l = take n s \<or> l \<in> set (butlast (char_wrap (drop n s) n))"
        by (simp add: char_wrap_rec)
      then show ?thesis
      proof
        assume "l = take n s"
        with d show ?thesis by simp
      next
        assume a: "l \<in> set (butlast (char_wrap (drop n s) n))"
        have "length (drop n s) < length s" using False 1(2) by simp
        with 1(1) 1(2) a show ?thesis by blast
      qed
    qed
  qed
qed

lemma wcswidth_from_eq:
  "wcswidth_from wcw a s = (if \<exists>c\<in>set s. wcw c < 0 then - 1 else a + sum_list (map wcw s))"
  by (induction s arbitrary: a) auto

lemma wcswidth_eq:
  "wcswidth wcw s = (if \<exists>c\<in>set s. wcw c < 0 then - 1 else sum_list (map wcw s))"
  by (simp add: wcswidth_def wcswidth_from_eq)

lemma sum_list_le_length: "\<forall>c\<in>set s. wcw c \<le> (1::int) \<Longrightarrow> sum_list (map wcw s) \<le> int (length s)"
  by (induction s) auto

lemma sum_list_eq_length: "\<forall>c\<in>set s. wcw c = (1::int) \<Longrightarrow> sum_list (map wcw s) = int (length s)"
  by (induction s) auto

lemma wcswidth_le_length: "\<forall>c\<in>set s. wcw c \<le> 1 \<Longrightarrow> wcswidth wcw s \<le> int (length s)"
  using sum_list_le_length[of s wcw] by (simp add: wcswidth_eq)

lemma wcswidth_narrow: "\<forall>c\<in>set s. wcw c = 1 \<Longrightarrow> wcswidth wcw s = int (length s)"
  using sum_list_eq_length[of s wcw] by (auto simp add: wcswidth_eq)

section \<open>Character wrapping\<close>

text \<open>
  Claim C2, as the code has it. Without word wrapping, \<open>_wrap_text\<close> slices the text every
  \<open>max_width\<close> code points: for \<open>max_width > 0\<close> the lines concatenate to the text, every
  line has at most \<open>max_width\<close> characters and every line but the last exactly
  \<open>max_width\<close>. The display width of a line is at most \<open>max_width\<close> when no character
  of the text is wider than one column, and the full lines occupy exactly \<open>max_width\<close>
  columns when every character occupies one.
\<close>

theorem char_wrap_lines:
  assumes "0 < max_width"
  shows "\<exists>lines. wrap_text wcw text max_width False = Inr lines \<and> concat lines = text \<and>
           (\<forall>l\<in>set lines. int (length l) \<le> max_width) \<and>
           (\<forall>l\<in>set (butlast lines). int (length l) = max_width) \<and>
           ((\<forall>c\<in>set text. wcw c \<le> 1) \<longrightarrow> (\<forall>l\<in>set lines. wcswidth wcw l \<le> max_width)) \<and>
           ((\<forall>c\<in>set text. wcw c = 1) \<longrightarrow> (\<forall>l\<in>set (butlast lines). wcswidth wcw l = max_width))"
proof (cases "text = []")
  case True
  then show ?thesis by (simp add: wrap_text_def)
next
  case False
  define n where "n = nat max_width"
  have n: "0 < n" "int n = max_width" using assms by (simp_all add: n_def)
  have w: "wrap_text wcw text max_width False = Inr (char_wrap text n)"
    using False assms by (simp add: wrap_text_def n_def)
  have len: "\<forall>l\<in>set (char_wrap text n). int (length l) \<le> max_width"
    using char_wrap_elem[OF n(1)] n(2) by fastforce
  have sub: "\<forall>l\<in>set (char_wrap text n). set l \<subseteq> set text"
    using char_wrap_elem[OF n(1)] by blast
  have full: "\<forall>l\<in>set (butlast (char_wrap text n)). int (length l) = max_width"
    using char_wrap_butlast[OF n(1)] n(2) by fastforce
  have a: "(\<forall>c\<in>set text. wcw c \<le> 1) \<longrightarrow> (\<forall>l\<in>set (char_wrap text n). wcswidth wcw l \<le> max_width)"
  proof (intro impI ballI)
    fix l assume h: "\<forall>c\<in>set text. wcw c \<le> 1" and l: "l \<in> set (char_wrap text n)"
    from h sub l have "\<forall>c\<in>set l. wcw c \<le> 1" by blast
    then have "wcswidth wcw l \<le> int (length l)" by (rule wcswidth_le_length)
    with len l show "wcswidth wcw l \<le> max_width" by fastforce
  qed
  have b: "(\<forall>c\<in>set text. wcw c = 1) \<longrightarrow> (\<forall>l\<in>set (butlast (char_wrap text n)). wcswidth wcw l = max_width)"
  proof (intro impI ballI)
    fix l assume h: "\<forall>c\<in>set text. wcw c = 1" and l: "l \<in> set (butlast (char_wrap text n))"
    from l have "l \<in> set (char_wrap text n)" by (rule in_set_butlastD)
    with h sub have "\<forall>c\<in>set l. wcw c = 1" by blast
    then have "wcswidth wcw l = int (length l)" by (rule wcswidth_narrow)
    with full l show "wcswidth wcw l = max_width" by simp
  qed
  have c: "concat (char_wrap text n) = text" using n(1) by (rule concat_char_wrap)
  show ?thesis using w c len full a b by simp
qed

theorem char_wrap_lines_witness:
  "(0::int) < 3 \<and>
   (\<exists>lines. wrap_text wcwidth (u ''abcdefg'') 3 False = Inr lines \<and> concat lines = u ''abcdefg'' \<and>
           (\<forall>l\<in>set lines. int (length l) \<le> 3) \<and>
           (\<forall>l\<in>set (butlast lines). int (length l) = 3) \<and>
           ((\<forall>c\<in>set (u ''abcdefg''). wcwidth c \<le> 1) \<longrightarrow> (\<forall>l\<in>set lines. wcswidth wcwidth l \<le> 3)) \<and>
           ((\<forall>c\<in>set (u ''abcdefg''). wcwidth c = 1) \<longrightarrow> (\<forall>l\<in>set (butlast lines). wcswidth wcwidth l = 3)))"
proof -
  have h: "(0::int) < 3" by simp
  show ?thesis using h char_wrap_lines[OF h, of wcwidth "u ''abcdefg''"] by blast
qed

text \<open>
  Claim C2 as stated fails on wide characters: two ideographs (U+4E2D twice, two columns
  each) wrapped at width 2 come back as one line of display width 4.
\<close>

theorem char_wrap_wide_counterexample:
  "wrap_text wcwidth [20013, 20013] 2 False = Inr [[20013, 20013]] \<and>
   wcswidth wcwidth [20013, 20013] = 4"
  by (simp add: wrap_text_def char_wrap_def range_step_def wcswidth_def wcwidth_def)


section \<open>Word wrapping\<close>

lemma char_wrap_Cons:
  "0 < n \<Longrightarrow> char_wrap (c # cs) n = take n (c # cs) # char_wrap (drop n (c # cs)) n"
  by (rule char_wrap_rec) simp_all

lemmas wrap_eval = wrap_text_def split_def u_def isspace_def wcswidth_def wcwidth_def space_def
  char_wrap_Cons char_wrap_Nil Let_def

lemma join_snoc: "xs \<noteq> [] \<Longrightarrow> join sep (xs @ [a]) = join sep xs @ sep @ a"
  by (induction sep xs rule: join.induct) auto

lemma join_snoc2: "join sep (xs @ [a, b]) = join sep (xs @ [a @ sep @ b])"
  by (induction sep xs rule: join.induct) auto

definition flushed :: "wrap_state \<Rightarrow> pystr list" where
  "flushed st = (case st of (lines, current_line, current_width) \<Rightarrow>
     (if current_line \<noteq> [] then lines @ [concat current_line] else lines))"

lemma join_append:
  "join sep (xs @ ys) =
     (if xs = [] then join sep ys else if ys = [] then join sep xs
      else join sep xs @ sep @ join sep ys)"
proof (induction sep xs rule: join.induct)
  case (2 sep p)
  then show ?case by (cases ys) auto
qed auto

lemma join_cong_append:
  "join sep xs = join sep ys \<Longrightarrow> xs \<noteq> [] \<Longrightarrow> ys \<noteq> [] \<Longrightarrow>
   join sep (xs @ zs) = join sep (ys @ zs)"
  by (simp add: join_append)

lemma wrap_word_fits:
  assumes "wcswidth wcw word \<le> int n"
  shows "\<exists>st'. wrap_word wcw n st word = Inr st' \<and> flushed st' \<noteq> [] \<and>
           join [space] (flushed st') = join [space] (flushed st @ [word])"
proof -
  obtain lines cur cw where st: "st = (lines, cur, cw)" by (cases st) auto
  show ?thesis using assms join_snoc2[of "[space]" lines "concat cur" word]
    by (auto simp: st flushed_def Let_def)
qed

lemma wrap_words_fit:
  assumes "\<forall>word\<in>set words. wcswidth wcw word \<le> int n"
  shows "\<exists>st'. wrap_words wcw n st words = Inr st' \<and>
           join [space] (flushed st') = join [space] (flushed st @ words)"
  using assms
proof (induction words arbitrary: st)
  case Nil
  then show ?case by simp
next
  case (Cons word words)
  then obtain st1 where s1: "wrap_word wcw n st word = Inr st1"
     and n1: "flushed st1 \<noteq> []"
     and j1: "join [space] (flushed st1) = join [space] (flushed st @ [word])"
    using wrap_word_fits[of wcw word n st] by auto
  from Cons obtain st2 where s2: "wrap_words wcw n st1 words = Inr st2"
     and j2: "join [space] (flushed st2) = join [space] (flushed st1 @ words)"
    by fastforce
  have "join [space] (flushed st1 @ words) = join [space] ((flushed st @ [word]) @ words)"
    using j1 n1 by (intro join_cong_append) auto
  with s1 s2 j2 show ?case by simp
qed

text \<open>
  Claim C10. When every whitespace-delimited word of the text fits in \<open>max_width\<close>
  columns, word wrapping returns lines that, joined with single spaces, are the words of
  the text joined with single spaces: runs of whitespace collapse to one space and
  leading and trailing whitespace disappears.
\<close>

theorem word_wrap_joined:
  assumes "0 < max_width"
    and "\<forall>word\<in>set (split text). wcswidth wcw word \<le> max_width"
  shows "\<exists>lines. wrap_text wcw text max_width True = Inr lines \<and>
           join [space] lines = join [space] (split text)"
proof (cases "text = []")
  case True
  then show ?thesis by (simp add: wrap_text_def split_def)
next
  case False
  have "\<forall>word\<in>set (split text). wcswidth wcw word \<le> int (nat max_width)"
    using assms by simp
  then obtain st' where w: "wrap_words wcw (nat max_width) ([], [], 0) (split text) = Inr st'"
    and j: "join [space] (flushed st') = join [space] (flushed ([], [], 0) @ split text)"
    using wrap_words_fit[of "split text" wcw "nat max_width" "([], [], 0)"] by blast
  obtain lines cur cw where st: "st' = (lines, cur, cw)" by (cases st') auto
  show ?thesis using False assms(1) w j by (simp add: wrap_text_def st flushed_def)
qed


theorem word_wrap_joined_witness:
  "(0::int) < 4 \<and> list_all (\<lambda>word. wcswidth wcwidth word \<le> 4) (split (u ''  ab   c\<newline>def g  '')) \<and>
   wrap_text wcwidth (u ''  ab   c\<newline>def g  '') 4 True = Inr [u ''ab c'', u ''def'', u ''g''] \<and>
   join [space] (split (u ''  ab   c\<newline>def g  '')) = u ''ab c def g'' \<and>
   (\<exists>lines. wrap_text wcwidth (u ''  ab   c\<newline>def g  '') 4 True = Inr lines \<and>
           join [space] lines = join [space] (split (u ''  ab   c\<newline>def g  '')))"
proof -
  have h1: "(0::int) < 4" by simp
  have h2: "\<forall>word\<in>set (split (u ''  ab   c\<newline>def g  '')). wcswidth wcwidth word \<le> 4"
    by (simp add: wrap_eval)
  have e: "wrap_text wcwidth (u ''  ab   c\<newline>def g  '') 4 True = Inr [u ''ab c'', u ''def'', u ''g'']"
    by (simp add: wrap_eval)
  have j: "join [space] (split (u ''  ab   c\<newline>def g  '')) = u ''ab c def g''"
    by (simp add: wrap_eval)
  have h3: "list_all (\<lambda>word. wcswidth wcwidth word \<le> 4) (split (u ''  ab   c\<newline>def g  ''))"
    using h2 by (simp only: list_all_iff)
  show ?thesis using h1 h3 e j word_wrap_joined[OF h1 h2] by blast
qed

lemma isspace_space: "isspace space"
  by (simp add: isspace_def space_def)

lemma split_from_word:
  "\<forall>c\<in>set w. \<not> isspace c \<Longrightarrow> split_from cur (w @ rest) = split_from (cur @ w) rest"
  by (induction w arbitrary: cur) auto

lemma split_word: "w \<noteq> [] \<Longrightarrow> \<forall>c\<in>set w. \<not> isspace c \<Longrightarrow> split w = [w]"
  using split_from_word[of w "[]" "[]"] by (simp add: split_def)

lemma split_from_space:
  "split_from cur (a @ space # b) = split_from cur a @ split_from [] b"
  by (induction a arbitrary: cur) (auto simp: isspace_space)

lemma split_space: "split (a @ space # b) = split a @ split b"
  by (simp add: split_def split_from_space)

lemma split_from_words:
  "\<forall>c\<in>set cur. \<not> isspace c \<Longrightarrow>
   \<forall>w\<in>set (split_from cur s). w \<noteq> [] \<and> (\<forall>c\<in>set w. \<not> isspace c)"
proof (induction s arbitrary: cur)
  case Nil
  then show ?case by simp
next
  case (Cons a s)
  have e: "\<forall>w\<in>set (split_from [] s). w \<noteq> [] \<and> (\<forall>c\<in>set w. \<not> isspace c)"
    using Cons.IH[of "[]"] by simp
  show ?case
  proof (cases "isspace a")
    case True
    with e Cons.prems show ?thesis by auto
  next
    case False
    with Cons.prems have "\<forall>c\<in>set (cur @ [a]). \<not> isspace c" by simp
    from Cons.IH[OF this] False show ?thesis by simp
  qed
qed

lemma split_words: "w \<in> set (split s) \<Longrightarrow> w \<noteq> [] \<and> (\<forall>c\<in>set w. \<not> isspace c)"
  using split_from_words[of "[]" s] by (simp add: split_def)

lemma split_chunks:
  assumes "0 < n" "\<forall>c\<in>set w. \<not> isspace c"
  shows "concat (map split (char_wrap w n)) = char_wrap w n"
proof -
  have "map split (char_wrap w n) = map (\<lambda>c. [c]) (char_wrap w n)"
  proof (rule map_cong[OF refl])
    fix c assume "c \<in> set (char_wrap w n)"
    then have "c \<noteq> [] \<and> set c \<subseteq> set w" using char_wrap_elem[OF assms(1)] by blast
    with assms(2) show "split c = [c]" by (intro split_word) auto
  qed
  then have "concat (map split (char_wrap w n)) = concat (map (\<lambda>c. [c]) (char_wrap w n))"
    by (rule arg_cong)
  then show ?thesis by simp
qed

lemma wcswidth_Nil: "wcswidth wcw [] = 0"
  by (simp add: wcswidth_def)

lemma wcswidth_append_space:
  assumes "wcw space = 1"
  shows "wcswidth wcw (a @ space # b) =
     (if (\<exists>c\<in>set a. wcw c < 0) \<or> (\<exists>c\<in>set b. wcw c < 0) then - 1
      else wcswidth wcw a + 1 + wcswidth wcw b)"
  using assms by (auto simp: wcswidth_eq)

lemma wcswidth_ge: "- 1 \<le> wcswidth wcw s"
proof -
  have "(\<forall>c\<in>set s. 0 \<le> wcw c) \<Longrightarrow> 0 \<le> sum_list (map wcw s)"
    by (induction s) auto
  then show ?thesis by (auto simp: wcswidth_eq not_less)
qed

definition okline :: "(codepoint \<Rightarrow> int) \<Rightarrow> nat \<Rightarrow> pystr set \<Rightarrow> pystr \<Rightarrow> bool" where
  "okline wcw n W l \<longleftrightarrow>
     wcswidth wcw l \<le> int n \<or> (\<exists>word\<in>W. wcswidth wcw word > int n \<and> l \<in> set (char_wrap word n))"

definition wrap_inv :: "(codepoint \<Rightarrow> int) \<Rightarrow> nat \<Rightarrow> pystr set \<Rightarrow> wrap_state \<Rightarrow> bool" where
  "wrap_inv wcw n W st \<longleftrightarrow> (case st of (lines, cur, cw) \<Rightarrow>
     (\<forall>l\<in>set lines. okline wcw n W l) \<and> - 1 \<le> cw \<and>
     ((cur = [] \<and> cw = 0) \<or>
      (cur \<noteq> [] \<and> okline wcw n W (concat cur) \<and>
       ((\<forall>c\<in>set (concat cur). 0 \<le> wcw c) \<longrightarrow> cw = wcswidth wcw (concat cur)))))"

definition expand :: "(codepoint \<Rightarrow> int) \<Rightarrow> nat \<Rightarrow> pystr \<Rightarrow> pystr list" where
  "expand wcw n word = (if wcswidth wcw word > int n then char_wrap word n else [word])"

lemma wrap_word_step:
  assumes n: "0 < n" and sp: "wcw space = 1"
    and word: "word \<in> W" "word \<noteq> []" "\<forall>c\<in>set word. \<not> isspace c"
    and inv: "wrap_inv wcw n W st"
  shows "\<exists>st'. wrap_word wcw n st word = Inr st' \<and> wrap_inv wcw n W st' \<and>
           concat (map split (flushed st')) = concat (map split (flushed st)) @ expand wcw n word"
proof -
  obtain lines cur cw where st: "st = (lines, cur, cw)" by (cases st) auto
  let ?ww = "wcswidth wcw word"
  from inv have ls: "\<forall>l\<in>set lines. okline wcw n W l" by (simp add: wrap_inv_def st)
  from inv have lo: "- 1 \<le> cw" by (simp add: wrap_inv_def st)
  from inv have cur: "(cur = [] \<and> cw = 0) \<or>
      (cur \<noteq> [] \<and> okline wcw n W (concat cur) \<and>
       ((\<forall>c\<in>set (concat cur). 0 \<le> wcw c) \<longrightarrow> cw = wcswidth wcw (concat cur)))"
    by (simp add: wrap_inv_def st)
  have sw: "split word = [word]" using word by (intro split_word) auto
  show ?thesis
  proof (cases "cw + (if cur \<noteq> [] then 1 else 0) + ?ww \<le> int n")
    case fits: True
    show ?thesis
    proof (cases "cur = []")
      case True
      with cur have cw: "cw = 0" by simp
      with fits True have le: "?ww \<le> int n" by simp
      have "wrap_word wcw n st word = Inr (lines, [word], ?ww)"
        using fits True cw by (simp add: st)
      moreover have "wrap_inv wcw n W (lines, [word], ?ww)"
        using ls le wcswidth_ge[of wcw word] by (simp add: wrap_inv_def okline_def)
      moreover have "concat (map split (flushed (lines, [word], ?ww))) =
          concat (map split (flushed st)) @ expand wcw n word"
        using True le sw by (simp add: flushed_def st expand_def)
      ultimately show ?thesis by blast
    next
      case False
      let ?line = "concat cur @ space # word"
      have r: "wrap_word wcw n st word = Inr (lines, cur @ [[space], word], cw + 1 + ?ww)"
        using fits False by (simp add: st)
      have width: "wcswidth wcw ?line \<le> int n"
      proof (cases "(\<exists>c\<in>set (concat cur). wcw c < 0) \<or> (\<exists>c\<in>set word. wcw c < 0)")
        case True
        then have "wcswidth wcw ?line = - 1" using sp by (simp add: wcswidth_append_space[of wcw, OF sp])
        then show ?thesis by simp
      next
        case nn: False
        then have "\<forall>c\<in>set (concat cur). 0 \<le> wcw c" by (auto simp: not_less)
        with cur False have "cw = wcswidth wcw (concat cur)" by blast
        moreover have "wcswidth wcw ?line = wcswidth wcw (concat cur) + 1 + ?ww"
          using nn by (simp add: wcswidth_append_space[of wcw, OF sp])
        ultimately show ?thesis using fits False by simp
      qed
      have acc: "(\<forall>c\<in>set ?line. 0 \<le> wcw c) \<longrightarrow> cw + 1 + ?ww = wcswidth wcw ?line"
      proof
        assume a: "\<forall>c\<in>set ?line. 0 \<le> wcw c"
        then have "\<forall>c\<in>set (concat cur). 0 \<le> wcw c" by auto
        with cur False have "cw = wcswidth wcw (concat cur)" by blast
        moreover have "\<not> ((\<exists>c\<in>set (concat cur). wcw c < 0) \<or> (\<exists>c\<in>set word. wcw c < 0))"
          using a by (auto simp: not_less)
        then have "wcswidth wcw ?line = wcswidth wcw (concat cur) + 1 + ?ww"
          by (simp add: wcswidth_append_space[of wcw, OF sp])
        ultimately show "cw + 1 + ?ww = wcswidth wcw ?line" by simp
      qed
      have cl: "concat (cur @ [[space], word]) = ?line" by simp
      have lo': "- 1 \<le> cw + 1 + ?ww" using lo wcswidth_ge[of wcw word] by linarith
      have ne': "cur @ [[space], word] \<noteq> []" by simp
      have "wrap_inv wcw n W (lines, cur @ [[space], word], cw + 1 + ?ww)"
        unfolding wrap_inv_def prod.case cl okline_def
        using ls width acc lo' ne' unfolding okline_def by blast
      moreover have "?ww \<le> int n"
      proof (rule ccontr)
        assume "\<not> ?ww \<le> int n"
        then have big: "int n < ?ww" by simp
        with lo fits False show False by simp
      qed
      then have "concat (map split (flushed (lines, cur @ [[space], word], cw + 1 + ?ww))) =
          concat (map split (flushed st)) @ expand wcw n word"
        using False sw by (simp add: flushed_def st expand_def split_space)
      ultimately show ?thesis using r by blast
    qed
  next
    case nofit: False
    define lines1 where "lines1 = flushed st"
    have ls1: "\<forall>l\<in>set lines1. okline wcw n W l"
      using ls cur by (auto simp: lines1_def flushed_def st)
    show ?thesis
    proof (cases "?ww > int n")
      case True
      define ch where "ch = char_wrap word n"
      have ne: "ch \<noteq> []" using word(2) n by (simp add: ch_def char_wrap_eq_Nil)
      have r: "wrap_word wcw n st word = Inr (lines1 @ butlast ch, [last ch], wcswidth wcw (last ch))"
        using nofit True ne by (auto simp: st lines1_def flushed_def ch_def Let_def)
      have okch: "\<forall>l\<in>set ch. okline wcw n W l"
        using True word(1) by (auto simp: okline_def ch_def)
      have "\<forall>l\<in>set (butlast ch). okline wcw n W l"
        using okch by (auto dest: in_set_butlastD)
      moreover have "okline wcw n W (last ch)" using okch ne by simp
      ultimately have "wrap_inv wcw n W (lines1 @ butlast ch, [last ch], wcswidth wcw (last ch))"
        using ls1 wcswidth_ge[of wcw "last ch"] by (auto simp: wrap_inv_def)
      moreover have "flushed (lines1 @ butlast ch, [last ch], wcswidth wcw (last ch)) = lines1 @ ch"
        using ne by (simp add: flushed_def)
      then have "concat (map split (flushed (lines1 @ butlast ch, [last ch], wcswidth wcw (last ch)))) =
          concat (map split (flushed st)) @ expand wcw n word"
        using True split_chunks[OF n word(3)] by (simp add: expand_def lines1_def ch_def)
      ultimately show ?thesis using r by blast
    next
      case False
      then have le: "?ww \<le> int n" by simp
      have r: "wrap_word wcw n st word = Inr (lines1, [word], ?ww)"
        using nofit False by (auto simp: st lines1_def flushed_def)
      have "wrap_inv wcw n W (lines1, [word], ?ww)"
        using ls1 le wcswidth_ge[of wcw word] by (simp add: wrap_inv_def okline_def)
      moreover have "concat (map split (flushed (lines1, [word], ?ww))) =
          concat (map split (flushed st)) @ expand wcw n word"
        using le sw by (simp add: flushed_def expand_def lines1_def)
      ultimately show ?thesis using r by blast
    qed
  qed
qed

lemma wrap_words_inv:
  assumes n: "0 < n" and sp: "wcw space = 1"
    and words: "set words \<subseteq> W" "\<forall>w\<in>set words. w \<noteq> [] \<and> (\<forall>c\<in>set w. \<not> isspace c)"
    and inv: "wrap_inv wcw n W st"
  shows "\<exists>st'. wrap_words wcw n st words = Inr st' \<and> wrap_inv wcw n W st' \<and>
           concat (map split (flushed st')) =
             concat (map split (flushed st)) @ concat (map (expand wcw n) words)"
  using words inv
proof (induction words arbitrary: st)
  case Nil
  then show ?case by simp
next
  case (Cons word words)
  from Cons.prems have "word \<in> W" "word \<noteq> []" "\<forall>c\<in>set word. \<not> isspace c" by auto
  from wrap_word_step[OF n sp this Cons.prems(3)]
  obtain st1 where s1: "wrap_word wcw n st word = Inr st1" and i1: "wrap_inv wcw n W st1"
    and t1: "concat (map split (flushed st1)) = concat (map split (flushed st)) @ expand wcw n word"
    by blast
  from Cons.prems have "set words \<subseteq> W" "\<forall>w\<in>set words. w \<noteq> [] \<and> (\<forall>c\<in>set w. \<not> isspace c)"
    by auto
  from Cons.IH[OF this i1]
  obtain st2 where s2: "wrap_words wcw n st1 words = Inr st2" and i2: "wrap_inv wcw n W st2"
    and t2: "concat (map split (flushed st2)) =
       concat (map split (flushed st1)) @ concat (map (expand wcw n) words)"
    by blast
  show ?case using s1 s2 i2 t1 t2 by simp
qed

lemma flushed_ok: "wrap_inv wcw n W st \<Longrightarrow> \<forall>l\<in>set (flushed st). okline wcw n W l"
  by (cases st) (auto simp: wrap_inv_def flushed_def)



section \<open>Styles: \<open>text_styles.py\<close> and \<open>LogLineFormatter._apply_style\<close>\<close>

text \<open>An escape sequence: ESC followed by the given ASCII text.\<close>

definition esc :: "string \<Rightarrow> pystr" where
  "esc s = 27 # u s"

definition COLOR_CODES :: "(pystr \<times> pystr) list" where
  "COLOR_CODES =
    [(u ''light_red'', esc ''[91m''), (u ''red'', esc ''[31m''), (u ''dark_red'', esc ''[31;2m''),
     (u ''light_green'', esc ''[92m''), (u ''green'', esc ''[32m''),
     (u ''dark_green'', esc ''[32;2m''),
     (u ''light_yellow'', esc ''[93m''), (u ''yellow'', esc ''[33m''),
     (u ''dark_yellow'', esc ''[33;2m''),
     (u ''light_orange'', esc ''[38;5;215m''), (u ''orange'', esc ''[38;5;208m''),
     (u ''dark_orange'', esc ''[38;5;202m''),
     (u ''light_blue'', esc ''[94m''), (u ''blue'', esc ''[34m''), (u ''dark_blue'', esc ''[34;2m''),
     (u ''light_purple'', esc ''[95m''), (u ''purple'', esc ''[35m''),
     (u ''dark_purple'', esc ''[35;2m''),
     (u ''light_pink'', esc ''[95m''), (u ''pink'', esc ''[38;5;205m''),
     (u ''dark_pink'', esc ''[38;5;95m''),
     (u ''white'', esc ''[37m''), (u ''grey'', esc ''[90m''), (u ''black'', esc ''[30m''),
     (u ''reset'', esc ''[0m'')]"

definition STYLE_CODES :: "(pystr \<times> pystr) list" where
  "STYLE_CODES =
    [(u ''bold'', esc ''[1m''), (u ''italic'', esc ''[3m''), (u ''underlined'', esc ''[4m''),
     (u ''blink'', esc ''[5m''), (u ''reverse'', esc ''[7m''), (u ''hidden'', esc ''[8m''),
     (u ''default'', [])]"

text \<open>\<open>table.get(key, '')\<close>.\<close>

definition get_code :: "(pystr \<times> pystr) list \<Rightarrow> pystr \<Rightarrow> pystr" where
  "get_code table key = (case map_of table key of Some code \<Rightarrow> code | None \<Rightarrow> [])"

text \<open>\<open>s.strip()\<close> and \<open>s.split(',')\<close> (a separator given: empty pieces are kept).\<close>

definition strip :: "pystr \<Rightarrow> pystr" where
  "strip s = rev (dropWhile isspace (rev (dropWhile isspace s)))"

fun split_on :: "codepoint \<Rightarrow> pystr \<Rightarrow> pystr list" where
  "split_on sep [] = [[]]"
| "split_on sep (c # cs) =
     (if c = sep then [] # split_on sep cs
      else (case split_on sep cs of [] \<Rightarrow> [[c]] | p # ps \<Rightarrow> (c # p) # ps))"

definition comma :: codepoint where
  "comma = 44"

text \<open>The truth value of an optional string: \<open>None\<close> and \<open>''\<close> are false.\<close>

fun truthy :: "pystr option \<Rightarrow> bool" where
  "truthy None = False"
| "truthy (Some s) = (s \<noteq> [])"

fun text_of :: "pystr option \<Rightarrow> pystr" where
  "text_of None = []"
| "text_of (Some s) = s"

definition apply_style :: "pystr \<Rightarrow> pystr option \<Rightarrow> pystr option \<Rightarrow> pystr" where
  "apply_style text color style =
     (let text1 =
            (if truthy color
             then get_code COLOR_CODES (strip (text_of color)) @ text @
                  get_code COLOR_CODES (u ''reset'')
             else text);
          text2 =
            (if truthy style
             then (let style_list = split_on comma (text_of style);
                       style_codes = concat (map (\<lambda>s. get_code STYLE_CODES (strip s))
                                               (filter (\<lambda>s. strip s \<noteq> []) style_list))
                   in style_codes @ text1 @ get_code COLOR_CODES (u ''reset''))
             else text1)
      in text2)"

section \<open>Configuration as the formatter reads it: \<open>FieldConfig\<close>, \<open>LogConfig\<close>\<close>

record FieldConfig =
  min_width :: int
  max_width :: "int option"
  leading_char :: pystr
  closing_char :: pystr
  padding_char :: pystr
  color :: "pystr option"
  style :: "pystr option"
  wrap :: bool
  word_wrap :: bool

text \<open>
  The formatter reads \<open>total_width\<close> and \<open>fields\<close> of a \<open>LogConfig\<close>; \<open>fields\<close> (here
  \<open>fields_dict\<close>) is a dictionary, and \<open>fields[name]\<close> raises \<open>KeyError\<close> for a missing name.
\<close>

record LogConfig =
  total_width :: int
  fields_dict :: "string \<rightharpoonup> FieldConfig"

text \<open>The dataclass defaults of \<open>FieldConfig()\<close> and \<open>LogConfig()\<close>.\<close>

definition default_field :: FieldConfig where
  "default_field =
     \<lparr>min_width = 0, max_width = None, leading_char = [], closing_char = [],
      padding_char = [space], color = None, style = None, wrap = True, word_wrap = True\<rparr>"

definition default_message :: FieldConfig where
  "default_message =
     default_field\<lparr>min_width := 20, max_width := Some 55, wrap := True, word_wrap := True\<rparr>"

definition default_padding :: FieldConfig where
  "default_padding =
     default_field\<lparr>min_width := 1, padding_char := u ''.'', leading_char := u '' '',
                   closing_char := u '' ''\<rparr>"

definition default_reason :: FieldConfig where
  "default_reason =
     default_field\<lparr>max_width := Some 22, leading_char := u ''('', closing_char := u '')'',
                   wrap := False, word_wrap := True\<rparr>"

definition default_status :: FieldConfig where
  "default_status = default_field\<lparr>max_width := Some 10, wrap := False\<rparr>"

definition default_config :: LogConfig where
  "default_config =
     \<lparr>total_width = 80,
      fields_dict =
        [''message'' \<mapsto> default_message, ''padding'' \<mapsto> default_padding,
         ''reason'' \<mapsto> default_reason, ''status'' \<mapsto> default_status]\<rparr>"

section \<open>Field widths: \<open>LogLineFormatter._calculate_widths\<close>\<close>

text \<open>\<open>len\<close> as a Python integer.\<close>

definition len :: "pystr \<Rightarrow> int" where
  "len s = int (length s)"

text \<open>
  The loop \<open>for field, width in widths.items()\<close> over the three keys of the dictionary,
  in their order of insertion.
\<close>

fun apply_max_width :: "LogConfig \<Rightarrow> (string \<Rightarrow> int) \<Rightarrow> string list \<Rightarrow> error + (string \<Rightarrow> int)" where
  "apply_max_width cfg widths [] = Inr widths"
| "apply_max_width cfg widths (field # rest) =
     (if widths field > 0 then
        (case fields_dict cfg field of
           None \<Rightarrow> Inl KeyError
         | Some fc \<Rightarrow>
             (case max_width fc of
                None \<Rightarrow> apply_max_width cfg widths rest
              | Some m \<Rightarrow>
                  if m \<noteq> 0 then apply_max_width cfg (widths(field := min (widths field) m)) rest
                  else apply_max_width cfg widths rest))
      else apply_max_width cfg widths rest)"

text \<open>
  The base width of an optional field: \<open>wcswidth(text) + len(leading_char) +
  len(closing_char)\<close> if the text is truthy, else 0 (and then \<open>fields[name]\<close> is not read).
\<close>

definition base_width :: "(codepoint \<Rightarrow> int) \<Rightarrow> LogConfig \<Rightarrow> string \<Rightarrow> pystr option \<Rightarrow> error + int" where
  "base_width wcw cfg name text =
     (if truthy text then
        (case fields_dict cfg name of
           None \<Rightarrow> Inl KeyError
         | Some fc \<Rightarrow>
             Inr (wcswidth wcw (text_of text) + len (leading_char fc) + len (closing_char fc)))
      else Inr 0)"

text \<open>
  The dictionary \<open>widths\<close> is a function from its keys: only the four keys the code sets
  are ever read.
\<close>

definition calculate_widths ::
  "(codepoint \<Rightarrow> int) \<Rightarrow> LogConfig \<Rightarrow> pystr \<Rightarrow> pystr option \<Rightarrow> pystr option \<Rightarrow> error + (string \<Rightarrow> int)" where
  "calculate_widths wcw cfg message reason status =
     (case fields_dict cfg ''message'' of
        None \<Rightarrow> Inl KeyError
      | Some fm \<Rightarrow>
     (case base_width wcw cfg ''reason'' reason of
        Inl e \<Rightarrow> Inl e
      | Inr reason_width \<Rightarrow>
     (case base_width wcw cfg ''status'' status of
        Inl e \<Rightarrow> Inl e
      | Inr status_width \<Rightarrow>
     (case apply_max_width cfg
             ((\<lambda>_. 0)(''message'' := wcswidth wcw message + len (leading_char fm) +
                                     len (closing_char fm),
                       ''reason'' := reason_width, ''status'' := status_width))
             [''message'', ''reason'', ''status''] of
        Inl e \<Rightarrow> Inl e
      | Inr widths \<Rightarrow>
     (case fields_dict cfg ''padding'' of
        None \<Rightarrow> Inl KeyError
      | Some padding_field \<Rightarrow>
          (let used_width = widths ''message'' + widths ''reason'' + widths ''status'';
               min_padding = min_width padding_field + len (leading_char padding_field) +
                             len (closing_char padding_field);
               total_padding = total_width cfg - used_width
           in Inr (widths(''padding'' := max min_padding total_padding))))))))"

section \<open>Fields and lines: \<open>_format_field\<close> and \<open>format_line\<close>\<close>

text \<open>
  \<open>s * n\<close> (empty for \<open>n \<le> 0\<close>), \<open>s[:n]\<close> (a negative \<open>n\<close> counts from the end),
  \<open>s.ljust(width)\<close> and \<open>s.rjust(width)\<close>, which pad with spaces by the number of code
  points.
\<close>

definition repeat :: "pystr \<Rightarrow> int \<Rightarrow> pystr" where
  "repeat s n = concat (replicate (nat n) s)"

definition slice_to :: "pystr \<Rightarrow> int \<Rightarrow> pystr" where
  "slice_to s n = (if n < 0 then take (nat (len s + n)) s else take (nat n) s)"

definition ljust :: "pystr \<Rightarrow> int \<Rightarrow> pystr" where
  "ljust s width = s @ repeat [space] (width - len s)"

definition rjust :: "pystr \<Rightarrow> int \<Rightarrow> pystr" where
  "rjust s width = repeat [space] (width - len s) @ s"

text \<open>The alignment of one raw line of a field, by the field's name.\<close>

definition align :: "string \<Rightarrow> pystr \<Rightarrow> int \<Rightarrow> pystr" where
  "align field_name raw width =
     (if field_name = ''message'' then ljust raw width
      else if field_name = ''status'' then raw
      else rjust raw width)"

definition format_field ::
  "(codepoint \<Rightarrow> int) \<Rightarrow> LogConfig \<Rightarrow> pystr \<Rightarrow> string \<Rightarrow> int \<Rightarrow> error + pystr list" where
  "format_field wcw cfg content field_name width =
     (case fields_dict cfg field_name of
        None \<Rightarrow> Inl KeyError
      | Some field_config \<Rightarrow>
          if field_name = ''padding'' then
            (let inner_width = width - len (leading_char field_config) -
                               len (closing_char field_config)
             in Inr [leading_char field_config @ repeat (padding_char field_config) inner_width @
                     closing_char field_config])
          else
            (let max_content_width = width - len (leading_char field_config) -
                                     len (closing_char field_config)
             in if \<not> wrap field_config then
                  (let truncated = (if wcswidth wcw content > max_content_width
                                    then slice_to content max_content_width else content);
                       raw = leading_char field_config @ truncated @ closing_char field_config
                   in Inr [align field_name raw width])
                else
                  (case wrap_text wcw content max_content_width (word_wrap field_config) of
                     Inl e \<Rightarrow> Inl e
                   | Inr wrapped_lines \<Rightarrow>
                       (let formatted_lines =
                              map (\<lambda>(i, line).
                                     align field_name
                                       ((if i = 0 then leading_char field_config else []) @ line @
                                        (if i = length wrapped_lines - 1
                                         then closing_char field_config else []))
                                       width)
                                  (enumerate 0 wrapped_lines)
                        in Inr (if formatted_lines \<noteq> [] then formatted_lines else [[]])))))"

text \<open>
  The first part of \<open>format_line\<close>: the widths and the formatted lines of each field.
  \<open>_format_field('', 'padding', ...)[0]\<close> raises \<open>IndexError\<close> on an empty list.
\<close>

record layout =
  widths :: "string \<Rightarrow> int"
  message_lines :: "pystr list"
  padding :: pystr
  reason_lines :: "pystr list"
  status_lines :: "pystr list"

definition optional_lines ::
  "(codepoint \<Rightarrow> int) \<Rightarrow> LogConfig \<Rightarrow> pystr option \<Rightarrow> string \<Rightarrow> int \<Rightarrow> error + pystr list" where
  "optional_lines wcw cfg text field_name width =
     (if truthy text \<and> width > 0 then format_field wcw cfg (text_of text) field_name width
      else Inr [])"

definition field_lines ::
  "(codepoint \<Rightarrow> int) \<Rightarrow> LogConfig \<Rightarrow> pystr \<Rightarrow> pystr option \<Rightarrow> pystr option \<Rightarrow> error + layout" where
  "field_lines wcw cfg message reason status =
     (case calculate_widths wcw cfg message reason status of
        Inl e \<Rightarrow> Inl e
      | Inr ws \<Rightarrow>
     (case format_field wcw cfg message ''message'' (ws ''message'') of
        Inl e \<Rightarrow> Inl e
      | Inr ms \<Rightarrow>
     (case format_field wcw cfg [] ''padding'' (ws ''padding'') of
        Inl e \<Rightarrow> Inl e
      | Inr [] \<Rightarrow> Inl IndexError
      | Inr (p # _) \<Rightarrow>
     (case optional_lines wcw cfg reason ''reason'' (ws ''reason'') of
        Inl e \<Rightarrow> Inl e
      | Inr rs \<Rightarrow>
     (case optional_lines wcw cfg status ''status'' (ws ''status'') of
        Inl e \<Rightarrow> Inl e
      | Inr ss \<Rightarrow>
          Inr \<lparr>widths = ws, message_lines = ms, padding = p, reason_lines = rs,
               status_lines = ss\<rparr>)))))"

text \<open>
  The parts of output line \<open>i\<close> (\<open>line_parts\<close> in the loop of \<open>format_line\<close>). The styling
  function is a parameter: \<open>format_line\<close> passes \<open>apply_style\<close>, and the same line without
  its escape sequences is the one composed with \<open>no_style\<close>.
\<close>

type_synonym styler = "pystr \<Rightarrow> pystr option \<Rightarrow> pystr option \<Rightarrow> pystr"

definition no_style :: styler where
  "no_style text c s = text"

definition line_parts ::
  "styler \<Rightarrow> LogConfig \<Rightarrow> layout \<Rightarrow> pystr option \<Rightarrow> nat \<Rightarrow> error + pystr list" where
  "line_parts sty cfg lay status i =
     (case fields_dict cfg ''message'' of
        None \<Rightarrow> Inl KeyError
      | Some fm \<Rightarrow>
     (case fields_dict cfg ''padding'' of
        None \<Rightarrow> Inl KeyError
      | Some fp \<Rightarrow>
     (case (if reason_lines lay \<noteq> [] then
              (case fields_dict cfg ''reason'' of
                 None \<Rightarrow> Inl KeyError
               | Some fr \<Rightarrow>
                   Inr [sty (if i < length (reason_lines lay) then reason_lines lay ! i
                             else repeat [space] (widths lay ''reason''))
                            (color fr) (style fr)])
            else Inr []) of
        Inl e \<Rightarrow> Inl e
      | Inr reason_part \<Rightarrow>
     (case (if status_lines lay \<noteq> [] \<and> i = 0 then
              (case fields_dict cfg ''status'' of
                 None \<Rightarrow> Inl KeyError
               | Some fs \<Rightarrow> Inr [sty (status_lines lay ! 0) (color fs) (style fs)])
            else if truthy status \<and> i > 0 then Inr [repeat [space] (widths lay ''status'')]
            else Inr []) of
        Inl e \<Rightarrow> Inl e
      | Inr status_part \<Rightarrow>
          Inr ([sty (if i < length (message_lines lay) then message_lines lay ! i
                     else repeat [space] (widths lay ''message''))
                    (color fm) (style fm),
                sty (padding lay) (color fp) (style fp)] @ reason_part @ status_part)))))"

text \<open>The results of a loop whose turns may raise: the first error, or all the values.\<close>

fun collect :: "(error + 'a) list \<Rightarrow> error + 'a list" where
  "collect [] = Inr []"
| "collect (Inl e # rs) = Inl e"
| "collect (Inr x # rs) = (case collect rs of Inl e \<Rightarrow> Inl e | Inr xs \<Rightarrow> Inr (x # xs))"

definition max_lines :: "layout \<Rightarrow> nat" where
  "max_lines lay =
     max (max (max (length (message_lines lay)) (length (reason_lines lay)))
              (length (status_lines lay))) 1"

definition formatted_lines ::
  "styler \<Rightarrow> LogConfig \<Rightarrow> layout \<Rightarrow> pystr option \<Rightarrow> error + pystr list" where
  "formatted_lines sty cfg lay status =
     (case collect (map (line_parts sty cfg lay status) [0 ..< max_lines lay]) of
        Inl e \<Rightarrow> Inl e
      | Inr parts \<Rightarrow> Inr (map concat parts))"

definition format_line_with ::
  "styler \<Rightarrow> (codepoint \<Rightarrow> int) \<Rightarrow> LogConfig \<Rightarrow> pystr \<Rightarrow> pystr option \<Rightarrow> pystr option \<Rightarrow> error + pystr" where
  "format_line_with sty wcw cfg message reason status =
     (case field_lines wcw cfg message reason status of
        Inl e \<Rightarrow> Inl e
      | Inr lay \<Rightarrow>
          (case formatted_lines sty cfg lay status of
             Inl e \<Rightarrow> Inl e
           | Inr ls \<Rightarrow> Inr (join [newline] ls)))"

definition format_line ::
  "(codepoint \<Rightarrow> int) \<Rightarrow> LogConfig \<Rightarrow> pystr \<Rightarrow> pystr option \<Rightarrow> pystr option \<Rightarrow> error + pystr" where
  "format_line = format_line_with apply_style"


text \<open>The four widths of a computed width map, for the examples.\<close>

definition width_values :: "error + (string \<Rightarrow> int) \<Rightarrow> error + int list" where
  "width_values r =
     (case r of Inl e \<Rightarrow> Inl e
      | Inr ws \<Rightarrow> Inr [ws ''message'', ws ''padding'', ws ''reason'', ws ''status''])"


section \<open>Properties of the widths\<close>

lemma apply_max_width_ok:
  assumes "\<forall>f\<in>set fs. fields_dict cfg f \<noteq> None"
  shows "\<exists>ws'. apply_max_width cfg ws fs = Inr ws' \<and> (\<forall>f. f \<notin> set fs \<longrightarrow> ws' f = ws f)"
  using assms
proof (induction fs arbitrary: ws)
  case Nil
  then show ?case by simp
next
  case (Cons f fs)
  then obtain fc where fc: "fields_dict cfg f = Some fc" by auto
  from Cons have ih: "\<And>ws. \<exists>ws'. apply_max_width cfg ws fs = Inr ws' \<and> (\<forall>f. f \<notin> set fs \<longrightarrow> ws' f = ws f)"
    by simp
  show ?case
  proof (cases "0 < ws f \<and> (\<exists>m. max_width fc = Some m \<and> m \<noteq> 0)")
    case True
    then obtain m where m: "max_width fc = Some m" "m \<noteq> 0" "0 < ws f" by auto
    have "apply_max_width cfg ws (f # fs) = apply_max_width cfg (ws(f := min (ws f) m)) fs"
      using fc m by simp
    with ih[of "ws(f := min (ws f) m)"] show ?thesis by auto
  next
    case False
    then have "apply_max_width cfg ws (f # fs) = apply_max_width cfg ws fs"
      using fc by (auto split: option.splits)
    with ih[of ws] show ?thesis by auto
  qed
qed

lemma base_width_ok:
  "fields_dict cfg name \<noteq> None \<Longrightarrow> \<exists>w. base_width wcw cfg name text = Inr w"
  by (auto simp: base_width_def)

text \<open>
  Claim C4, as the code has it. With the four fields configured, \<open>_calculate_widths\<close>
  returns a width map in which the padding width is the larger of the padding field's
  \<open>min_width\<close> plus the lengths of its leading and closing strings, and \<open>total_width\<close>
  minus the widths of message, reason and status (an absent reason or status counts 0).
  So the padding width is at least the configured \<open>min_width\<close>, and when the other
  widths already exceed \<open>total_width\<close> (and \<open>min_width\<close> is not negative) the block is
  wider than \<open>total_width\<close>.
\<close>

theorem padding_width:
  assumes "fields_dict cfg ''message'' = Some fm" "fields_dict cfg ''reason'' = Some fr"
    and "fields_dict cfg ''status'' = Some fs" "fields_dict cfg ''padding'' = Some pf"
  shows "\<exists>ws. calculate_widths wcw cfg message reason status = Inr ws \<and>
     ws ''padding'' =
       max (min_width pf + len (leading_char pf) + len (closing_char pf))
           (total_width cfg - (ws ''message'' + ws ''reason'' + ws ''status'')) \<and>
     min_width pf \<le> ws ''padding'' \<and>
     (\<not> truthy reason \<longrightarrow> ws ''reason'' = 0) \<and> (\<not> truthy status \<longrightarrow> ws ''status'' = 0) \<and>
     (total_width cfg < ws ''message'' + ws ''reason'' + ws ''status'' \<and> 0 \<le> min_width pf \<longrightarrow>
        total_width cfg < ws ''message'' + ws ''reason'' + ws ''status'' + ws ''padding'')"
proof -
  obtain rw where rw: "base_width wcw cfg ''reason'' reason = Inr rw"
    using base_width_ok[of cfg "''reason''"] assms by auto
  obtain sw where sw: "base_width wcw cfg ''status'' status = Inr sw"
    using base_width_ok[of cfg "''status''"] assms by auto
  have rw0: "\<not> truthy reason \<longrightarrow> rw = 0" using rw by (auto simp: base_width_def)
  have sw0: "\<not> truthy status \<longrightarrow> sw = 0" using sw by (auto simp: base_width_def)
  let ?w0 = "(\<lambda>_. 0)(''message'' := wcswidth wcw message + len (leading_char fm) +
                                     len (closing_char fm),
                       ''reason'' := rw, ''status'' := sw)"
  have "\<forall>f\<in>set [''message'', ''reason'', ''status'']. fields_dict cfg f \<noteq> None"
    using assms by simp
  from apply_max_width_ok[OF this, of ?w0]
  obtain ws where ws: "apply_max_width cfg ?w0 [''message'', ''reason'', ''status''] = Inr ws"
    by blast
  have r0: "\<not> truthy reason \<longrightarrow> ws ''reason'' = 0"
    using ws rw0 assms by (auto split: if_splits option.splits)
  have s0: "\<not> truthy status \<longrightarrow> ws ''status'' = 0"
    using ws sw0 assms by (auto split: if_splits option.splits)
  let ?p = "max (min_width pf + len (leading_char pf) + len (closing_char pf))
           (total_width cfg - (ws ''message'' + ws ''reason'' + ws ''status''))"
  have c: "calculate_widths wcw cfg message reason status = Inr (ws(''padding'' := ?p))"
    using assms rw sw ws by (simp add: calculate_widths_def Let_def)
  have "0 \<le> len (leading_char pf)" "0 \<le> len (closing_char pf)" by (simp_all add: len_def)
  then have ge: "min_width pf \<le> ?p" by linarith
  show ?thesis using c ge r0 s0 by (auto simp: )
qed

lemma default_fields:
  "fields_dict default_config ''message'' = Some default_message"
  "fields_dict default_config ''padding'' = Some default_padding"
  "fields_dict default_config ''reason'' = Some default_reason"
  "fields_dict default_config ''status'' = Some default_status"
  by (simp_all add: default_config_def)

lemmas config_eval = default_message_def default_padding_def default_reason_def
  default_status_def default_field_def len_def u_def wcswidth_def wcwidth_def space_def

lemmas widths_eval = calculate_widths_def base_width_def width_values_def Let_def

theorem padding_width_witness:
  "fields_dict default_config ''message'' = Some default_message \<and>
   fields_dict default_config ''reason'' = Some default_reason \<and>
   fields_dict default_config ''status'' = Some default_status \<and>
   fields_dict default_config ''padding'' = Some default_padding \<and>
   width_values (calculate_widths wcwidth default_config (u ''Failed to save file'')
       (Some (u ''Permission denied'')) (Some (u ''X''))) = Inr [19, 41, 19, 1] \<and>
   (\<exists>ws. calculate_widths wcwidth default_config (u ''Failed to save file'')
            (Some (u ''Permission denied'')) (Some (u ''X'')) = Inr ws \<and>
     ws ''padding'' =
       max (min_width default_padding + len (leading_char default_padding) +
            len (closing_char default_padding))
           (total_width default_config - (ws ''message'' + ws ''reason'' + ws ''status'')) \<and>
     min_width default_padding \<le> ws ''padding'' \<and>
     (\<not> truthy (Some (u ''Permission denied'')) \<longrightarrow> ws ''reason'' = 0) \<and>
     (\<not> truthy (Some (u ''X'')) \<longrightarrow> ws ''status'' = 0) \<and>
     (total_width default_config < ws ''message'' + ws ''reason'' + ws ''status'' \<and>
      0 \<le> min_width default_padding \<longrightarrow>
        total_width default_config <
          ws ''message'' + ws ''reason'' + ws ''status'' + ws ''padding''))"
proof -
  have e: "width_values (calculate_widths wcwidth default_config (u ''Failed to save file'')
       (Some (u ''Permission denied'')) (Some (u ''X''))) = Inr [19, 41, 19, 1]"
    by (simp add: widths_eval default_fields config_eval default_config_def)
  show ?thesis
    using e default_fields
      padding_width[OF default_fields(1) default_fields(3) default_fields(4) default_fields(2),
        of wcwidth "u ''Failed to save file''" "Some (u ''Permission denied'')" "Some (u ''X'')"]
    by blast
qed

text \<open>
  Claim C4 as stated, with the configured minimum alone as the floor, fails: with the
  default fields, \<open>total_width = 10\<close> and a message of 8 columns, 2 columns remain and
  the configured minimum is 1, but the padding width is 3 (the minimum plus the two
  spaces around the padding).
\<close>

theorem padding_width_counterexample:
  "width_values (calculate_widths wcwidth (default_config\<lparr>total_width := 10\<rparr>) (u ''abcdefgh'')
      None None) = Inr [8, 3, 0, 0] \<and>
   map_option min_width (fields_dict (default_config\<lparr>total_width := 10\<rparr>) ''padding'') = Some 1 \<and>
   max (1::int) (10 - (8 + 0 + 0)) = 2"
  by (simp add: widths_eval default_config_def config_eval)

section \<open>Properties of the composed lines\<close>

lemma wrap_word_total:
  assumes "0 < n" "word \<noteq> []"
  shows "\<exists>st'. wrap_word wcw n st word = Inr st'"
proof -
  obtain lines cur cw where st: "st = (lines, cur, cw)" using prod_cases3 by blast
  have ne: "char_wrap word n \<noteq> []" using assms by (simp add: char_wrap_eq_Nil)
  have "wrap_word wcw n (lines, cur, cw) word \<noteq> Inl e" for e
    using ne by (simp add: Let_def split: prod.splits)
  then show ?thesis unfolding st by (cases "wrap_word wcw n (lines, cur, cw) word") auto
qed

lemma wrap_words_total:
  assumes "0 < n" "\<forall>w\<in>set words. w \<noteq> []"
  shows "\<exists>st'. wrap_words wcw n st words = Inr st'"
  using assms(2)
proof (induction words arbitrary: st)
  case Nil
  show ?case by (rule exI[of _ st]) simp
next
  case (Cons word words)
  then obtain st1 where "wrap_word wcw n st word = Inr st1"
    using wrap_word_total[OF assms(1), of word wcw st] by auto
  with Cons show ?case by simp
qed

lemma wrap_text_total: "\<exists>ls. wrap_text wcw text mw ww = Inr ls"
proof (cases "text = [] \<or> mw \<le> 0 \<or> \<not> ww")
  case True
  then show ?thesis by (auto simp: wrap_text_def)
next
  case False
  then have n: "0 < nat mw" by simp
  have "\<forall>w\<in>set (split text). w \<noteq> []" using split_words by blast
  from wrap_words_total[OF n this]
  obtain st' where "wrap_words wcw (nat mw) ([], [], 0) (split text) = Inr st'" by blast
  with False show ?thesis by (cases st') (simp add: wrap_text_def)
qed

lemma format_field_total:
  assumes "fields_dict cfg name = Some fc"
  shows "\<exists>ls. format_field wcw cfg content name width = Inr ls \<and> ls \<noteq> []"
proof -
  obtain ws where "wrap_text wcw content (width - len (leading_char fc) - len (closing_char fc))
      (word_wrap fc) = Inr ws"
    using wrap_text_total by blast
  then show ?thesis using assms by (auto simp: format_field_def Let_def)
qed

lemma format_padding:
  assumes "fields_dict cfg ''padding'' = Some fp"
  shows "format_field wcw cfg content ''padding'' width =
     Inr [leading_char fp @ repeat (padding_char fp) (width - len (leading_char fp) -
            len (closing_char fp)) @ closing_char fp]"
  using assms by (simp add: format_field_def Let_def)

lemma optional_lines_total:
  assumes "fields_dict cfg name = Some fc"
  shows "\<exists>ls. optional_lines wcw cfg text name width = Inr ls \<and>
           (ls \<noteq> [] \<longleftrightarrow> truthy text \<and> 0 < width) \<and>
           (truthy text \<and> 0 < width \<longrightarrow> format_field wcw cfg (text_of text) name width = Inr ls)"
  using format_field_total[OF assms, of wcw "text_of text" width]
  by (auto simp: optional_lines_def)

lemma calculate_widths_total:
  assumes "fields_dict cfg ''message'' = Some fm" "fields_dict cfg ''reason'' = Some fr"
    and "fields_dict cfg ''status'' = Some fs" "fields_dict cfg ''padding'' = Some fp"
  shows "\<exists>ws. calculate_widths wcw cfg message reason status = Inr ws"
proof -
  obtain rw where rw: "base_width wcw cfg ''reason'' reason = Inr rw"
    using base_width_ok[of cfg "''reason''"] assms by auto
  obtain sw where sw: "base_width wcw cfg ''status'' status = Inr sw"
    using base_width_ok[of cfg "''status''"] assms by auto
  have "\<forall>f\<in>set [''message'', ''reason'', ''status'']. fields_dict cfg f \<noteq> None"
    using assms by simp
  from apply_max_width_ok[OF this]
  obtain ws where "apply_max_width cfg ((\<lambda>_. 0)(''message'' := wcswidth wcw message + len (leading_char fm) +
                                     len (closing_char fm),
                       ''reason'' := rw, ''status'' := sw)) [''message'', ''reason'', ''status''] = Inr ws"
    by blast
  then show ?thesis using assms rw sw by (simp add: calculate_widths_def Let_def)
qed

lemma field_lines_total:
  assumes "fields_dict cfg ''message'' = Some fm" "fields_dict cfg ''reason'' = Some fr"
    and "fields_dict cfg ''status'' = Some fs" "fields_dict cfg ''padding'' = Some fp"
  shows "\<exists>lay. field_lines wcw cfg message reason status = Inr lay \<and>
     calculate_widths wcw cfg message reason status = Inr (widths lay) \<and>
     format_field wcw cfg message ''message'' (widths lay ''message'') = Inr (message_lines lay) \<and>
     message_lines lay \<noteq> [] \<and>
     padding lay = leading_char fp @ repeat (padding_char fp) (widths lay ''padding'' -
            len (leading_char fp) - len (closing_char fp)) @ closing_char fp \<and>
     optional_lines wcw cfg reason ''reason'' (widths lay ''reason'') = Inr (reason_lines lay) \<and>
     optional_lines wcw cfg status ''status'' (widths lay ''status'') = Inr (status_lines lay) \<and>
     (reason_lines lay \<noteq> [] \<longleftrightarrow> truthy reason \<and> 0 < widths lay ''reason'') \<and>
     (status_lines lay \<noteq> [] \<longleftrightarrow> truthy status \<and> 0 < widths lay ''status'')"
proof -
  obtain ws where ws: "calculate_widths wcw cfg message reason status = Inr ws"
    using calculate_widths_total[OF assms] by blast
  obtain ms where ms: "format_field wcw cfg message ''message'' (ws ''message'') = Inr ms" "ms \<noteq> []"
    using format_field_total[OF assms(1)] by blast
  obtain rs where rs: "optional_lines wcw cfg reason ''reason'' (ws ''reason'') = Inr rs"
      "rs \<noteq> [] \<longleftrightarrow> truthy reason \<and> 0 < ws ''reason''"
    using optional_lines_total[OF assms(2)] by blast
  obtain ss where ss: "optional_lines wcw cfg status ''status'' (ws ''status'') = Inr ss"
      "ss \<noteq> [] \<longleftrightarrow> truthy status \<and> 0 < ws ''status''"
    using optional_lines_total[OF assms(3)] by blast
  show ?thesis
    using ws ms rs ss format_padding[OF assms(4), of wcw "[]" "ws ''padding''"]
    by (simp add: field_lines_def)
qed

lemma line_parts_eq:
  assumes "fields_dict cfg ''message'' = Some fm" "fields_dict cfg ''reason'' = Some fr"
    and "fields_dict cfg ''status'' = Some fs" "fields_dict cfg ''padding'' = Some fp"
  shows "line_parts sty cfg lay status i =
     Inr ([sty (if i < length (message_lines lay) then message_lines lay ! i
                else repeat [space] (widths lay ''message'')) (color fm) (style fm),
           sty (padding lay) (color fp) (style fp)] @
          (if reason_lines lay \<noteq> [] then
             [sty (if i < length (reason_lines lay) then reason_lines lay ! i
                   else repeat [space] (widths lay ''reason'')) (color fr) (style fr)]
           else []) @
          (if status_lines lay \<noteq> [] \<and> i = 0 then [sty (status_lines lay ! 0) (color fs) (style fs)]
           else if truthy status \<and> 0 < i then [repeat [space] (widths lay ''status'')]
           else []))"
  using assms by (simp add: line_parts_def)

lemma collect_map:
  "(\<And>x. x \<in> set xs \<Longrightarrow> f x = Inr (g x)) \<Longrightarrow> collect (map f xs) = Inr (map g xs)"
  by (induction xs) auto

definition the_parts :: "error + pystr list \<Rightarrow> pystr list" where
  "the_parts r = (case r of Inl e \<Rightarrow> [] | Inr ps \<Rightarrow> ps)"

lemma formatted_lines_eq:
  assumes "fields_dict cfg ''message'' = Some fm" "fields_dict cfg ''reason'' = Some fr"
    and "fields_dict cfg ''status'' = Some fs" "fields_dict cfg ''padding'' = Some fp"
  shows "formatted_lines sty cfg lay status =
     Inr (map (\<lambda>i. concat (the_parts (line_parts sty cfg lay status i))) [0 ..< max_lines lay])"
proof -
  have "collect (map (line_parts sty cfg lay status) [0 ..< max_lines lay]) =
      Inr (map (\<lambda>i. the_parts (line_parts sty cfg lay status i)) [0 ..< max_lines lay])"
    by (rule collect_map) (simp add: line_parts_eq[OF assms] the_parts_def)
  then show ?thesis by (simp add: formatted_lines_def comp_def)
qed


definition clamp :: "FieldConfig \<Rightarrow> int \<Rightarrow> int" where
  "clamp fc w =
     (if 0 < w then (case max_width fc of None \<Rightarrow> w | Some m \<Rightarrow> if m \<noteq> 0 then min w m else w)
      else w)"

lemma apply_max_width_eq:
  assumes "distinct fs" "\<forall>f\<in>set fs. fields_dict cfg f \<noteq> None"
  shows "apply_max_width cfg ws fs =
     Inr (\<lambda>f. if f \<in> set fs
               then (case fields_dict cfg f of None \<Rightarrow> ws f | Some fc \<Rightarrow> clamp fc (ws f))
               else ws f)"
  using assms
proof (induction fs arbitrary: ws)
  case Nil
  then show ?case by simp
next
  case (Cons f fs)
  then obtain fc where fc: "fields_dict cfg f = Some fc" by auto
  from Cons have ih: "\<And>ws. apply_max_width cfg ws fs =
     Inr (\<lambda>f. if f \<in> set fs
               then (case fields_dict cfg f of None \<Rightarrow> ws f | Some fc \<Rightarrow> clamp fc (ws f))
               else ws f)"
    by simp
  from Cons.prems have nf: "f \<notin> set fs" by simp
  show ?case
  proof (cases "0 < ws f \<and> (\<exists>m. max_width fc = Some m \<and> m \<noteq> 0)")
    case True
    then obtain m where m: "max_width fc = Some m" "m \<noteq> 0" "0 < ws f" by auto
    have "apply_max_width cfg ws (f # fs) = apply_max_width cfg (ws(f := min (ws f) m)) fs"
      using fc m by simp
    moreover have "(if g \<in> set fs
               then (case fields_dict cfg g of None \<Rightarrow> (ws(f := min (ws f) m)) g
                     | Some fc \<Rightarrow> clamp fc ((ws(f := min (ws f) m)) g))
               else (ws(f := min (ws f) m)) g) =
            (if g \<in> set (f # fs)
               then (case fields_dict cfg g of None \<Rightarrow> ws g | Some fc \<Rightarrow> clamp fc (ws g))
               else ws g)" for g
    proof (cases "g = f")
      case True
      then show ?thesis using nf fc m by (simp add: clamp_def)
    next
      case False
      then show ?thesis by (simp split: option.splits)
    qed
    ultimately show ?thesis by (simp only: ih)
  next
    case False
    then have "apply_max_width cfg ws (f # fs) = apply_max_width cfg ws fs"
      using fc by (auto split: option.splits)
    then show ?thesis using nf fc False by (auto simp: ih clamp_def fun_eq_iff split: option.splits)
  qed
qed

lemma calculate_widths_eq:
  assumes "fields_dict cfg ''message'' = Some fm" "fields_dict cfg ''reason'' = Some fr"
    and "fields_dict cfg ''status'' = Some fs" "fields_dict cfg ''padding'' = Some fp"
    and "calculate_widths wcw cfg message reason status = Inr ws"
  shows "ws ''message'' = clamp fm (wcswidth wcw message + len (leading_char fm) + len (closing_char fm))"
    and "ws ''reason'' = clamp fr (if truthy reason then wcswidth wcw (text_of reason) +
            len (leading_char fr) + len (closing_char fr) else 0)"
    and "ws ''status'' = clamp fs (if truthy status then wcswidth wcw (text_of status) +
            len (leading_char fs) + len (closing_char fs) else 0)"
proof -
  have d: "distinct [''message'', ''reason'', ''status'']" by simp
  have p: "\<forall>f\<in>set [''message'', ''reason'', ''status'']. fields_dict cfg f \<noteq> None"
    using assms by simp
  note e = apply_max_width_eq[OF d p]
  show "ws ''message'' = clamp fm (wcswidth wcw message + len (leading_char fm) + len (closing_char fm))"
    using assms by (auto simp: calculate_widths_def base_width_def e Let_def
        simp del: apply_max_width.simps split: if_splits)
  show "ws ''reason'' = clamp fr (if truthy reason then wcswidth wcw (text_of reason) +
            len (leading_char fr) + len (closing_char fr) else 0)"
    using assms by (auto simp: calculate_widths_def base_width_def e Let_def
        simp del: apply_max_width.simps split: if_splits)
  show "ws ''status'' = clamp fs (if truthy status then wcswidth wcw (text_of status) +
            len (leading_char fs) + len (closing_char fs) else 0)"
    using assms by (auto simp: calculate_widths_def base_width_def e Let_def
        simp del: apply_max_width.simps split: if_splits)
qed

lemma split_on_sep:
  "sep \<notin> set p \<Longrightarrow> split_on sep (p @ sep # rest) = p # split_on sep rest"
  by (induction p) auto

lemma split_on_none: "sep \<notin> set p \<Longrightarrow> split_on sep p = [p]"
  by (induction p) auto

lemma split_on_join:
  "ls \<noteq> [] \<Longrightarrow> \<forall>l\<in>set ls. sep \<notin> set l \<Longrightarrow> split_on sep (join [sep] ls) = ls"
  by (induction "[sep]" ls rule: join.induct) (simp_all add: split_on_none split_on_sep)

lemma max_lines_pos: "0 < max_lines lay"
  by (simp add: max_lines_def)

definition count_lines :: "pystr \<Rightarrow> nat" where
  "count_lines s = length (split_on newline s)"

definition small_config :: LogConfig where
  "small_config =
     \<lparr>total_width = 24,
      fields_dict =
        [''message'' \<mapsto> default_message\<lparr>max_width := Some 8\<rparr>, ''padding'' \<mapsto> default_padding,
         ''reason'' \<mapsto> default_reason, ''status'' \<mapsto> default_status]\<rparr>"

lemma small_fields:
  "fields_dict small_config ''message'' = Some (default_message\<lparr>max_width := Some 8\<rparr>)"
  "fields_dict small_config ''padding'' = Some default_padding"
  "fields_dict small_config ''reason'' = Some default_reason"
  "fields_dict small_config ''status'' = Some default_status"
  by (simp_all add: small_config_def)

lemma replicate_num: "replicate (numeral k) x = x # replicate (pred_numeral k) x"
  by (simp add: numeral_eq_Suc)

lemmas format_eval = replicate_num format_line_def format_line_with_def field_lines_def formatted_lines_def
  line_parts_def optional_lines_def format_field_def max_lines_def align_def ljust_def rjust_def
  repeat_def slice_to_def apply_style_def no_style_def count_lines_def newline_def
  small_config_def default_config_def





lemma len_repeat_space: "0 \<le> w \<Longrightarrow> len (repeat [space] w) = w"
  by (simp add: len_def repeat_def)

lemma set_repeat_space: "set (repeat [space] w) \<subseteq> {space}"
  by (auto simp: repeat_def)

text \<open>
  Claim C6, as the code has it. With the four fields configured, output line \<open>i\<close> consists of the message
  column, the padding column, a reason column exactly when the reason is non-empty (and its
  width positive), and a status column exactly when the status is non-empty: on line 0 the
  styled first formatted line of the status (when its width is positive), on every later
  line \<open>' ' * widths['status']\<close>, blanks only, as many as the computed width of the status
  field (none when that width is negative). With an absent or empty reason or status
  no part of the line belongs to that field.
\<close>

theorem status_and_reason_columns:
  assumes "fields_dict cfg ''message'' = Some fm" "fields_dict cfg ''reason'' = Some fr"
    and "fields_dict cfg ''status'' = Some fs" "fields_dict cfg ''padding'' = Some fp"
  shows "\<exists>lay. field_lines wcw cfg message reason status = Inr lay \<and>
     format_line wcw cfg message reason status =
       Inr (join [newline] (map (\<lambda>i. concat (the_parts (line_parts apply_style cfg lay status i)))
                                [0 ..< max_lines lay])) \<and>
     (\<forall>i. line_parts apply_style cfg lay status i =
        Inr ([apply_style (if i < length (message_lines lay) then message_lines lay ! i
                           else repeat [space] (widths lay ''message'')) (color fm) (style fm),
              apply_style (padding lay) (color fp) (style fp)] @
             (if truthy reason \<and> 0 < widths lay ''reason''
              then [apply_style (if i < length (reason_lines lay) then reason_lines lay ! i
                                 else repeat [space] (widths lay ''reason''))
                                (color fr) (style fr)]
              else []) @
             (if truthy status
              then (if i = 0
                    then (if 0 < widths lay ''status''
                          then [apply_style (status_lines lay ! 0) (color fs) (style fs)] else [])
                    else [repeat [space] (widths lay ''status'')])
              else []))) \<and>
     set (repeat [space] (widths lay ''status'')) \<subseteq> {space} \<and>
     (0 \<le> widths lay ''status'' \<longrightarrow> len (repeat [space] (widths lay ''status'')) = widths lay ''status'')"
proof -
  obtain lay where lay: "field_lines wcw cfg message reason status = Inr lay"
    and r: "reason_lines lay \<noteq> [] \<longleftrightarrow> truthy reason \<and> 0 < widths lay ''reason''"
    and s: "status_lines lay \<noteq> [] \<longleftrightarrow> truthy status \<and> 0 < widths lay ''status''"
    using field_lines_total[OF assms] by blast
  have f: "format_line wcw cfg message reason status =
       Inr (join [newline] (map (\<lambda>i. concat (the_parts (line_parts apply_style cfg lay status i)))
                                [0 ..< max_lines lay]))"
    using lay by (simp add: format_line_def format_line_with_def formatted_lines_eq[OF assms])
  have p: "line_parts apply_style cfg lay status i =
        Inr ([apply_style (if i < length (message_lines lay) then message_lines lay ! i
                           else repeat [space] (widths lay ''message'')) (color fm) (style fm),
              apply_style (padding lay) (color fp) (style fp)] @
             (if truthy reason \<and> 0 < widths lay ''reason''
              then [apply_style (if i < length (reason_lines lay) then reason_lines lay ! i
                                 else repeat [space] (widths lay ''reason''))
                                (color fr) (style fr)]
              else []) @
             (if truthy status
              then (if i = 0
                    then (if 0 < widths lay ''status''
                          then [apply_style (status_lines lay ! 0) (color fs) (style fs)] else [])
                    else [repeat [space] (widths lay ''status'')])
              else []))" for i
    using r s by (auto simp: line_parts_eq[OF assms])
  show ?thesis using lay f p set_repeat_space len_repeat_space by blast
qed

text \<open>
  Claim C7, as the code has it. With the four fields configured, \<open>format_line\<close> returns
  the composed lines joined by newlines, and there are max(1, number of formatted lines of
  message, reason, status) of them; they are the newline-separated lines of the result
  when no composed line contains a newline itself. For an empty message there is still a
  line; its message column is the styled empty string when the message field wraps, or
  when the field has no leading and closing string, in which case the width of the message
  field is 0; the padding column follows it.
\<close>

theorem line_count:
  assumes "fields_dict cfg ''message'' = Some fm" "fields_dict cfg ''reason'' = Some fr"
    and "fields_dict cfg ''status'' = Some fs" "fields_dict cfg ''padding'' = Some fp"
  shows "\<exists>lay ls. field_lines wcw cfg message reason status = Inr lay \<and>
     formatted_lines apply_style cfg lay status = Inr ls \<and>
     format_line wcw cfg message reason status = Inr (join [newline] ls) \<and>
     length ls = max 1 (max (length (message_lines lay))
                            (max (length (reason_lines lay)) (length (status_lines lay)))) \<and>
     ((\<forall>l\<in>set ls. newline \<notin> set l) \<longrightarrow> count_lines (join [newline] ls) = length ls) \<and>
     (message = [] \<and> wrap fm \<longrightarrow> message_lines lay = [[]]) \<and>
     (message = [] \<and> leading_char fm = [] \<and> closing_char fm = [] \<longrightarrow>
        widths lay ''message'' = 0 \<and> message_lines lay = [[]]) \<and>
     (message_lines lay = [[]] \<longrightarrow>
        take 2 (the_parts (line_parts apply_style cfg lay status 0)) =
          [apply_style [] (color fm) (style fm), apply_style (padding lay) (color fp) (style fp)])"
proof -
  obtain lay where lay: "field_lines wcw cfg message reason status = Inr lay"
    and ws: "calculate_widths wcw cfg message reason status = Inr (widths lay)"
    and ms: "format_field wcw cfg message ''message'' (widths lay ''message'') = Inr (message_lines lay)"
    using field_lines_total[OF assms] by blast
  define ls where "ls = map (\<lambda>i. concat (the_parts (line_parts apply_style cfg lay status i)))
                                [0 ..< max_lines lay]"
  have fl: "formatted_lines apply_style cfg lay status = Inr ls"
    by (simp add: formatted_lines_eq[OF assms] ls_def)
  have f: "format_line wcw cfg message reason status = Inr (join [newline] ls)"
    using lay fl by (simp add: format_line_def format_line_with_def)
  have n: "length ls = max 1 (max (length (message_lines lay))
                            (max (length (reason_lines lay)) (length (status_lines lay))))"
    by (simp add: ls_def max_lines_def)
  have ne: "ls \<noteq> []" using n by auto
  have c: "(\<forall>l\<in>set ls. newline \<notin> set l) \<longrightarrow> count_lines (join [newline] ls) = length ls"
    using split_on_join[OF ne] by (simp add: count_lines_def)
  have e1: "message = [] \<and> wrap fm \<longrightarrow> message_lines lay = [[]]"
    using ms assms(1) by (auto simp: format_field_def wrap_text_def Let_def)
  have w0: "message = [] \<and> leading_char fm = [] \<and> closing_char fm = [] \<longrightarrow>
        widths lay ''message'' = 0"
    using calculate_widths_eq(1)[OF assms ws] by (simp add: clamp_def len_def wcswidth_Nil)
  have e2: "message = [] \<and> leading_char fm = [] \<and> closing_char fm = [] \<longrightarrow>
        message_lines lay = [[]]"
  proof
    assume a: "message = [] \<and> leading_char fm = [] \<and> closing_char fm = []"
    with w0 ms have "format_field wcw cfg [] ''message'' 0 = Inr (message_lines lay)" by simp
    moreover have "format_field wcw cfg [] ''message'' 0 = Inr [[]]"
      using a assms(1)
      by (simp add: format_field_def wrap_text_def Let_def align_def ljust_def repeat_def
          slice_to_def len_def wcswidth_Nil)
    ultimately show "message_lines lay = [[]]" by simp
  qed
  have l0: "message_lines lay = [[]] \<longrightarrow>
        take 2 (the_parts (line_parts apply_style cfg lay status 0)) =
          [apply_style [] (color fm) (style fm), apply_style (padding lay) (color fp) (style fp)]"
    by (simp add: line_parts_eq[OF assms] the_parts_def)
  show ?thesis using lay fl f n c e1 e2 w0 l0 by blast
qed

text \<open>
  Claim C7 as stated fails when a field is not wrapped and its text contains a newline:
  with the default configuration (reason: \<open>wrap=False\<close>) and the reason \<open>a\<newline>b\<close>, the
  result has two newline-separated lines although every field has one formatted line.
\<close>

theorem line_count_counterexample:
  "map_sum id count_lines
     (format_line wcwidth default_config (u ''ab'') (Some (u ''a\<newline>b'')) None) = Inr 2 \<and>
   map_sum id max_lines
     (field_lines wcwidth default_config (u ''ab'') (Some (u ''a\<newline>b'')) None) = Inr 1"
  by (simp add: format_eval widths_eval config_eval wrap_eval)


text \<open>
  Claim C6 as stated fails for a status whose display width cannot be computed: the
  status BEL is not empty, the computed width of its field is \<open>-1\<close>, no status text
  is on line 0, and on the later lines the fill \<open>' ' * widths['status']\<close> is empty, not
  \<open>-1\<close> blanks: every line is the message column and the padding column only.
\<close>

theorem status_column_counterexample:
  "truthy (Some [7]) \<and>
   map_sum id (\<lambda>lay. (widths lay ''status'', status_lines lay, len (repeat [space] (widths lay ''status''))))
     (field_lines wcwidth small_config (u ''Disk almost full'') None (Some [7])) =
     Inr (- 1, [], 0) \<and>
   format_line wcwidth small_config (u ''Disk almost full'') None (Some [7]) =
     Inr (u ''Disk     ............... \<newline>almost   ............... \<newline>full     ............... '')"
  by (simp add: format_eval widths_eval config_eval wrap_eval len_def)

theorem status_and_reason_columns_witness:
  "format_line wcwidth small_config (u ''Disk almost full'') (Some (u ''9%'')) (Some (u ''X'')) =
     Inr (u ''Disk     ......... (9%)X\<newline>almost   .........      \<newline>full     .........      '') \<and>
   (\<exists>lay. field_lines wcwidth small_config (u ''Disk almost full'') (Some (u ''9%'')) (Some (u ''X'')) = Inr lay \<and>
     format_line wcwidth small_config (u ''Disk almost full'') (Some (u ''9%'')) (Some (u ''X'')) =
       Inr (join [newline] (map (\<lambda>i. concat (the_parts (line_parts apply_style small_config lay (Some (u ''X'')) i)))
                                [0 ..< max_lines lay])) \<and>
     (\<forall>i. line_parts apply_style small_config lay (Some (u ''X'')) i =
        Inr ([apply_style (if i < length (message_lines lay) then message_lines lay ! i
                           else repeat [space] (widths lay ''message'')) (color (default_message\<lparr>max_width := Some 8\<rparr>)) (style (default_message\<lparr>max_width := Some 8\<rparr>)),
              apply_style (padding lay) (color default_padding) (style default_padding)] @
             (if truthy (Some (u ''9%'')) \<and> 0 < widths lay ''reason''
              then [apply_style (if i < length (reason_lines lay) then reason_lines lay ! i
                                 else repeat [space] (widths lay ''reason''))
                                (color default_reason) (style default_reason)]
              else []) @
             (if truthy (Some (u ''X''))
              then (if i = 0
                    then (if 0 < widths lay ''status''
                          then [apply_style (status_lines lay ! 0) (color default_status) (style default_status)] else [])
                    else [repeat [space] (widths lay ''status'')])
              else []))) \<and>
     set (repeat [space] (widths lay ''status'')) \<subseteq> {space} \<and>
     (0 \<le> widths lay ''status'' \<longrightarrow> len (repeat [space] (widths lay ''status'')) = widths lay ''status''))"
proof -
  have e: "format_line wcwidth small_config (u ''Disk almost full'') (Some (u ''9%'')) (Some (u ''X'')) =
     Inr (u ''Disk     ......... (9%)X\<newline>almost   .........      \<newline>full     .........      '')"
    by (simp add: format_eval widths_eval config_eval wrap_eval)
  show ?thesis
    using e status_and_reason_columns[OF small_fields(1) small_fields(3) small_fields(4)
        small_fields(2), of wcwidth "u ''Disk almost full''" "Some (u ''9%'')" "Some (u ''X'')"]
    by blast
qed

theorem line_count_witness:
  "format_line wcwidth small_config [] (Some (u ''9%'')) None =
     Inr (u '' .................. (9%)'') \<and>
   (\<exists>lay ls. field_lines wcwidth small_config [] (Some (u ''9%'')) None = Inr lay \<and>
     formatted_lines apply_style small_config lay None = Inr ls \<and>
     format_line wcwidth small_config [] (Some (u ''9%'')) None = Inr (join [newline] ls) \<and>
     length ls = max 1 (max (length (message_lines lay))
                            (max (length (reason_lines lay)) (length (status_lines lay)))) \<and>
     ((\<forall>l\<in>set ls. newline \<notin> set l) \<longrightarrow> count_lines (join [newline] ls) = length ls) \<and>
     ([] = [] \<and> wrap (default_message\<lparr>max_width := Some 8\<rparr>) \<longrightarrow> message_lines lay = [[]]) \<and>
     ([] = [] \<and> leading_char (default_message\<lparr>max_width := Some 8\<rparr>) = [] \<and> closing_char (default_message\<lparr>max_width := Some 8\<rparr>) = [] \<longrightarrow>
        widths lay ''message'' = 0 \<and> message_lines lay = [[]]) \<and>
     (message_lines lay = [[]] \<longrightarrow>
        take 2 (the_parts (line_parts apply_style small_config lay None 0)) =
          [apply_style [] (color (default_message\<lparr>max_width := Some 8\<rparr>)) (style (default_message\<lparr>max_width := Some 8\<rparr>)), apply_style (padding lay) (color default_padding) (style default_padding)]))"
proof -
  have e: "format_line wcwidth small_config [] (Some (u ''9%'')) None =
     Inr (u '' .................. (9%)'')"
    by (simp add: format_eval widths_eval config_eval wrap_eval)
  show ?thesis
    using e line_count[OF small_fields(1) small_fields(3) small_fields(4) small_fields(2),
        of wcwidth "[]" "Some (u ''9%'')" None]
    by blast
qed

section \<open>Wrapping a text of one-column characters\<close>

text \<open>The characters held by the state of the word loop.\<close>

definition chars :: "wrap_state \<Rightarrow> codepoint set" where
  "chars st = (case st of (lines, cur, cw) \<Rightarrow> set (concat lines) \<union> set (concat cur))"

lemma wrap_word_chars:
  assumes "0 < n" "wrap_word wcw n st word = Inr st'"
  shows "chars st' \<subseteq> chars st \<union> set word \<union> {space} \<and> flushed st' \<noteq> []"
proof -
  obtain lines cur cw where st: "st = (lines, cur, cw)" using prod_cases3 by blast
  let ?ch = "char_wrap word n"
  let ?lines1 = "if cur \<noteq> [] then lines @ [concat cur] else lines"
  have sub: "\<forall>l\<in>set ?ch. set l \<subseteq> set word" using char_wrap_elem[OF assms(1)] by blast
  have b: "set (concat (butlast ?ch)) \<subseteq> set word"
    using sub by (auto dest: in_set_butlastD)
  have l: "?ch \<noteq> [] \<Longrightarrow> set (last ?ch) \<subseteq> set word" using sub by simp
  have l1: "set (concat ?lines1) \<subseteq> set (concat lines) \<union> set (concat cur)" by auto
  consider (fits) w where "st' = (lines, (if cur \<noteq> [] then cur @ [[space]] else cur) @ [word], w)"
    | (chunk) w where "?ch \<noteq> []" "st' = (?lines1 @ butlast ?ch, [last ?ch], w)"
    | (fresh) w where "st' = (?lines1, [word], w)"
    using assms(2) unfolding st by (auto simp: Let_def split: if_splits)
  then show ?thesis
  proof cases
    case fits
    then show ?thesis by (auto simp: chars_def flushed_def st)
  next
    case chunk
    have "chars st' = set (concat ?lines1) \<union> set (concat (butlast ?ch)) \<union> set (last ?ch)"
      unfolding chunk(2) chars_def by auto
    then have "chars st' \<subseteq> set (concat lines) \<union> set (concat cur) \<union> set word"
      using l1 b l[OF chunk(1)] by blast
    then show ?thesis using chunk(2) by (auto simp: chars_def flushed_def st)
  next
    case fresh
    have "chars st' = set (concat ?lines1) \<union> set word"
      unfolding fresh chars_def by auto
    then have "chars st' \<subseteq> set (concat lines) \<union> set (concat cur) \<union> set word"
      using l1 by blast
    then show ?thesis using fresh by (auto simp: chars_def flushed_def st)
  qed
qed

lemma wrap_words_chars:
  assumes "0 < n" "wrap_words wcw n st words = Inr st'"
  shows "chars st' \<subseteq> chars st \<union> set (concat words) \<union> {space} \<and>
         (words \<noteq> [] \<longrightarrow> flushed st' \<noteq> [])"
  using assms(2)
proof (induction words arbitrary: st)
  case Nil
  then show ?case by auto
next
  case (Cons word words)
  then obtain st1 where s1: "wrap_word wcw n st word = Inr st1"
    and s2: "wrap_words wcw n st1 words = Inr st'"
    by (auto split: sum.splits)
  from wrap_word_chars[OF assms(1) s1]
  have c1: "chars st1 \<subseteq> chars st \<union> set word \<union> {space}" and f1: "flushed st1 \<noteq> []" by auto
  from Cons.IH[OF s2]
  have c2: "chars st' \<subseteq> chars st1 \<union> set (concat words) \<union> {space}"
    and f2: "words \<noteq> [] \<longrightarrow> flushed st' \<noteq> []" by auto
  have "flushed st' \<noteq> []"
  proof (cases "words = []")
    case True
    with s2 f1 show ?thesis by simp
  next
    case False
    with f2 show ?thesis by simp
  qed
  with c1 c2 show ?case by auto
qed

lemma split_from_chars: "\<forall>w\<in>set (split_from cur s). set w \<subseteq> set cur \<union> set s"
  by (induction s arbitrary: cur) (auto, fastforce+)

lemma split_chars: "w \<in> set (split s) \<Longrightarrow> set w \<subseteq> set s"
  using split_from_chars[of "[]" s] by (auto simp: split_def)

lemma flushed_chars: "set (concat (flushed st)) \<subseteq> chars st"
  by (cases st) (auto simp: flushed_def chars_def)

lemma wrap_text_narrow:
  assumes mw: "0 < mw" and sp: "wcw space = 1" and narrow: "\<forall>c\<in>set text. wcw c = 1"
    and ne: "if ww then split text \<noteq> [] else text \<noteq> []"
  shows "\<exists>ls. wrap_text wcw text mw ww = Inr ls \<and> ls \<noteq> [] \<and>
           (\<forall>l\<in>set ls. len l \<le> mw \<and> set l \<subseteq> set text \<union> {space})"
proof (cases ww)
  case False
  have n: "0 < nat mw" using mw by simp
  from False ne have t: "text \<noteq> []" by simp
  then have "wrap_text wcw text mw ww = Inr (char_wrap text (nat mw))"
    using False mw by (simp add: wrap_text_def)
  moreover have "char_wrap text (nat mw) \<noteq> []" using t n by (simp add: char_wrap_eq_Nil)
  moreover have "len l \<le> mw \<and> set l \<subseteq> set text \<union> {space}"
    if "l \<in> set (char_wrap text (nat mw))" for l
    using char_wrap_elem[OF n that] mw by (auto simp: len_def)
  ultimately show ?thesis by blast
next
  case True
  define n where "n = nat mw"
  have n: "0 < n" "int n = mw" using mw by (simp_all add: n_def)
  from True ne have w: "split text \<noteq> []" by simp
  then have t: "text \<noteq> []" by (auto simp: split_def)
  have i0: "wrap_inv wcw n (set (split text)) ([], [], 0)" by (simp add: wrap_inv_def)
  have ws: "\<forall>w\<in>set (split text). w \<noteq> [] \<and> (\<forall>c\<in>set w. \<not> isspace c)"
    using split_words by blast
  from wrap_words_inv[OF n(1) sp subset_refl ws i0]
  obtain st' where r: "wrap_words wcw n ([], [], 0) (split text) = Inr st'"
    and i: "wrap_inv wcw n (set (split text)) st'"
    by blast
  from wrap_words_chars[OF n(1) r] w
  have c: "chars st' \<subseteq> set (concat (split text)) \<union> {space}" and f: "flushed st' \<noteq> []"
    by (auto simp: chars_def)
  have "set (concat (split text)) \<subseteq> set text" using split_chars by auto
  with c flushed_chars[of st'] have cs: "set (concat (flushed st')) \<subseteq> set text \<union> {space}"
    by blast
  have res: "wrap_text wcw text mw ww = Inr (flushed st')"
    using t mw r True by (cases st') (simp add: wrap_text_def flushed_def n_def)
  have "len l \<le> mw \<and> set l \<subseteq> set text \<union> {space}" if l: "l \<in> set (flushed st')" for l
  proof -
    from cs l have sub: "set l \<subseteq> set text \<union> {space}" by auto
    with narrow sp have "\<forall>c\<in>set l. wcw c = 1" by auto
    then have wl: "wcswidth wcw l = int (length l)" by (rule wcswidth_narrow)
    from flushed_ok[OF i] l have "okline wcw n (set (split text)) l" by blast
    then have "int (length l) \<le> int n"
      using wl char_wrap_elem[OF n(1), of l] by (auto simp: okline_def)
    with sub n(2) show ?thesis by (simp add: len_def)
  qed
  with res f show ?thesis by blast
qed

section \<open>Alignment of the composed lines\<close>

definition narrow :: "(codepoint \<Rightarrow> int) \<Rightarrow> pystr \<Rightarrow> bool" where
  "narrow wcw s \<longleftrightarrow> (\<forall>c\<in>set s. wcw c = 1)"

definition decoration :: "FieldConfig \<Rightarrow> int" where
  "decoration fc = len (leading_char fc) + len (closing_char fc)"

definition roomy :: "FieldConfig \<Rightarrow> bool" where
  "roomy fc \<longleftrightarrow> (case max_width fc of None \<Rightarrow> True | Some m \<Rightarrow> m = 0 \<or> decoration fc < m)"

lemma narrow_append [simp]: "narrow wcw (a @ b) \<longleftrightarrow> narrow wcw a \<and> narrow wcw b"
  by (auto simp: narrow_def)

lemma narrow_Nil [simp]: "narrow wcw []"
  by (simp add: narrow_def)

lemma narrow_spaces: "wcw space = 1 \<Longrightarrow> narrow wcw (repeat [space] n)"
  by (simp add: narrow_def repeat_def)

lemma narrow_subset: "narrow wcw s \<Longrightarrow> set t \<subseteq> set s \<Longrightarrow> narrow wcw t"
  by (auto simp: narrow_def)

lemma narrow_width: "narrow wcw s \<Longrightarrow> wcswidth wcw s = len s"
  by (simp add: narrow_def len_def wcswidth_narrow)

lemma len_append [simp]: "len (a @ b) = len a + len b"
  by (simp add: len_def)

lemma len_ge0 [simp]: "0 \<le> len s"
  by (simp add: len_def)

lemma len_Nil [simp]: "len [] = 0"
  by (simp add: len_def)

lemma len_repeat_space': "len (repeat [space] n) = (if 0 \<le> n then n else 0)"
  by (simp add: len_def repeat_def)

lemma len_align:
  "name \<noteq> ''status'' \<Longrightarrow> len raw \<le> width \<Longrightarrow> len (align name raw width) = width"
  by (simp add: align_def ljust_def rjust_def len_repeat_space')

lemma narrow_align:
  "wcw space = 1 \<Longrightarrow> narrow wcw raw \<Longrightarrow> narrow wcw (align name raw width)"
  by (simp add: align_def ljust_def rjust_def narrow_spaces)

lemma clamp_bounds:
  assumes "roomy fc" "0 \<le> n"
  shows "decoration fc \<le> clamp fc (n + decoration fc)"
    and "clamp fc (n + decoration fc) \<le> n + decoration fc"
    and "clamp fc (n + decoration fc) < n + decoration fc \<Longrightarrow>
           decoration fc < clamp fc (n + decoration fc)"
    and "0 < n \<Longrightarrow> 0 < clamp fc (n + decoration fc)"
proof -
  have d: "0 \<le> decoration fc" by (simp add: decoration_def)
  show "decoration fc \<le> clamp fc (n + decoration fc)"
    using assms d by (auto simp: clamp_def roomy_def split: option.splits)
  show "clamp fc (n + decoration fc) \<le> n + decoration fc"
    using assms d by (auto simp: clamp_def roomy_def split: option.splits)
  show "clamp fc (n + decoration fc) < n + decoration fc \<Longrightarrow>
           decoration fc < clamp fc (n + decoration fc)"
    using assms d by (auto simp: clamp_def roomy_def split: option.splits if_splits)
  show "0 < n \<Longrightarrow> 0 < clamp fc (n + decoration fc)"
    using assms d by (auto simp: clamp_def roomy_def split: option.splits)
qed

lemma format_field_column:
  assumes fc: "fields_dict cfg name = Some fc" "name \<noteq> ''padding''"
    and sp: "wcw space = 1"
    and nc: "narrow wcw content" "narrow wcw (leading_char fc)" "narrow wcw (closing_char fc)"
    and roomy: "roomy fc"
    and width: "width = clamp fc (len content + decoration fc)"
    and wr: "wrap fc \<longrightarrow> split content \<noteq> []"
    and st: "name = ''status'' \<longrightarrow> \<not> wrap fc"
  shows "\<exists>ls. format_field wcw cfg content name width = Inr ls \<and> ls \<noteq> [] \<and>
           (\<forall>l\<in>set ls. len l = width \<and> narrow wcw l)"
proof -
  define d where "d = decoration fc"
  define mcw where "mcw = width - len (leading_char fc) - len (closing_char fc)"
  have mcw: "mcw = width - d" by (simp add: mcw_def d_def decoration_def)
  have b1: "d \<le> width" and b2: "width \<le> len content + d"
    and b3: "width < len content + d \<Longrightarrow> d < width"
    using clamp_bounds[OF roomy, of "len content"] by (simp_all add: width d_def)
  show ?thesis
  proof (cases "wrap fc")
    case False
    define truncated where
      "truncated = (if wcswidth wcw content > mcw then slice_to content mcw else content)"
    define raw where "raw = leading_char fc @ truncated @ closing_char fc"
    have r: "format_field wcw cfg content name width = Inr [align name raw width]"
      using fc False by (simp add: format_field_def Let_def raw_def truncated_def mcw_def)
    have lt: "len truncated = mcw"
      using b1 b2 nc(1) by (auto simp: truncated_def narrow_width mcw slice_to_def len_def)
    have nt: "narrow wcw truncated"
      using nc(1) by (auto simp: truncated_def slice_to_def narrow_def dest: in_set_takeD)
    have lr: "len raw = width" using lt by (simp add: raw_def mcw d_def decoration_def)
    have nr: "narrow wcw raw" using nt nc by (simp add: raw_def)
    have "len (align name raw width) = width"
      using lr by (simp add: align_def ljust_def rjust_def len_repeat_space')
    moreover have "narrow wcw (align name raw width)" using sp nr by (rule narrow_align)
    ultimately show ?thesis using r by simp
  next
    case True
    with wr st have w: "split content \<noteq> []" and ns: "name \<noteq> ''status''" by auto
    then have c: "content \<noteq> []" by (auto simp: split_def)
    then have "0 < len content" by (simp add: len_def)
    with b1 b3 have pos: "0 < mcw" unfolding mcw by linarith
    have ne: "if word_wrap fc then split content \<noteq> [] else content \<noteq> []" using w c by simp
    have "\<forall>c\<in>set content. wcw c = 1" using nc(1) by (simp add: narrow_def)
    from wrap_text_narrow[of mcw wcw content "word_wrap fc", OF pos sp this ne]
    obtain ws where ws: "wrap_text wcw content mcw (word_wrap fc) = Inr ws" "ws \<noteq> []"
      and wl: "\<forall>l\<in>set ws. len l \<le> mcw \<and> set l \<subseteq> set content \<union> {space}"
      by blast
    define fmt where "fmt = (\<lambda>(i, line). align name
        ((if i = 0 then leading_char fc else []) @ line @
         (if i = length ws - 1 then closing_char fc else [])) width)"
    have en: "enumerate 0 ws \<noteq> []" using ws(2) by (cases ws) simp_all
    have r: "format_field wcw cfg content name width = Inr (map fmt (enumerate 0 ws))"
      using fc True ws en by (simp add: format_field_def Let_def mcw_def fmt_def)
    have "len (fmt p) = width \<and> narrow wcw (fmt p)" if p: "p \<in> set (enumerate 0 ws)" for p
    proof -
      obtain i line where il: "p = (i, line)" by (cases p)
      with p have "line \<in> set ws" by (auto simp: in_set_enumerate_eq)
      with wl have ll: "len line \<le> mcw" and cl: "set line \<subseteq> set content \<union> {space}" by auto
      have nl: "narrow wcw line" using cl nc(1) sp by (auto simp: narrow_def)
      let ?raw = "(if i = 0 then leading_char fc else []) @ line @
         (if i = length ws - 1 then closing_char fc else [])"
      have "len ?raw \<le> d + mcw"
        using ll len_ge0[of "leading_char fc"] len_ge0[of "closing_char fc"]
        by (auto simp: d_def decoration_def simp del: len_ge0)
      then have "len ?raw \<le> width" using mcw by simp
      then have "len (align name ?raw width) = width" using ns by (intro len_align)
      moreover have "narrow wcw ?raw" using nl nc by simp
      then have "narrow wcw (align name ?raw width)" using sp by (intro narrow_align)
      ultimately show ?thesis by (simp add: il fmt_def)
    qed
    then show ?thesis using r en by auto
  qed
qed

lemma wcswidth_around:
  assumes "narrow wcw a" "narrow wcw b"
  shows "wcswidth wcw (a @ p @ b) =
     (if \<exists>c\<in>set p. wcw c < 0 then - 1 else len a + sum_list (map wcw p) + len b)"
proof -
  have "sum_list (map wcw a) = len a" "sum_list (map wcw b) = len b"
    using assms sum_list_eq_length[of a wcw] sum_list_eq_length[of b wcw]
    by (simp_all add: narrow_def len_def)
  moreover have "\<not> (\<exists>c\<in>set a. wcw c < 0)" "\<not> (\<exists>c\<in>set b. wcw c < 0)"
    using assms by (auto simp: narrow_def)
  ultimately show ?thesis by (auto simp: wcswidth_eq)
qed

lemma column_cell:
  assumes "wcw space = 1" "0 \<le> w" "\<forall>l\<in>set ls. len l = w \<and> narrow wcw l"
  shows "len (if i < length ls then ls ! i else repeat [space] w) = w \<and>
         narrow wcw (if i < length ls then ls ! i else repeat [space] w)"
  using assms by (auto simp: len_repeat_space' narrow_spaces)

lemma line_shape:
  assumes fields: "fields_dict cfg ''message'' = Some fm" "fields_dict cfg ''reason'' = Some fr"
      "fields_dict cfg ''status'' = Some fs" "fields_dict cfg ''padding'' = Some fp"
    and sp: "wcw space = 1"
    and texts: "narrow wcw message" "narrow wcw (text_of reason)" "narrow wcw (text_of status)"
    and decorations: "narrow wcw (leading_char fm @ closing_char fm)"
      "narrow wcw (leading_char fr @ closing_char fr)"
      "narrow wcw (leading_char fs @ closing_char fs)"
    and room: "roomy fm" "roomy fr" "roomy fs"
    and status_unwrapped: "\<not> wrap fs"
    and words: "wrap fm \<longrightarrow> split message \<noteq> []"
      "wrap fr \<and> truthy reason \<longrightarrow> split (text_of reason) \<noteq> []"
  shows "\<exists>lay wm k. field_lines wcw cfg message reason status = Inr lay \<and>
     (\<forall>i. \<exists>m r t. narrow wcw m \<and> len m = wm \<and> narrow wcw (r @ t) \<and> len (r @ t) = k \<and>
        (\<forall>sty. line_parts sty cfg lay status i =
           Inr ([sty m (color fm) (style fm), sty (padding lay) (color fp) (style fp)] @
                (if truthy reason then [sty r (color fr) (style fr)] else []) @
                (if truthy status then [if i = 0 then sty t (color fs) (style fs) else t]
                 else []))) \<and>
        (\<not> truthy reason \<longrightarrow> r = []) \<and> (\<not> truthy status \<longrightarrow> t = [])) \<and>
     set (padding lay) \<subseteq> set (leading_char fp @ padding_char fp @ closing_char fp)"
proof -
  obtain lay where lay: "field_lines wcw cfg message reason status = Inr lay"
    and ws: "calculate_widths wcw cfg message reason status = Inr (widths lay)"
    and ms: "format_field wcw cfg message ''message'' (widths lay ''message'') = Inr (message_lines lay)"
    and rs: "optional_lines wcw cfg reason ''reason'' (widths lay ''reason'') = Inr (reason_lines lay)"
    and ss: "optional_lines wcw cfg status ''status'' (widths lay ''status'') = Inr (status_lines lay)"
    and rne: "reason_lines lay \<noteq> [] \<longleftrightarrow> truthy reason \<and> 0 < widths lay ''reason''"
    and sne: "status_lines lay \<noteq> [] \<longleftrightarrow> truthy status \<and> 0 < widths lay ''status''"
    and pad: "padding lay = leading_char fp @ repeat (padding_char fp) (widths lay ''padding'' -
            len (leading_char fp) - len (closing_char fp)) @ closing_char fp"
    using field_lines_total[OF fields] by blast
  have pc: "set (padding lay) \<subseteq> set (leading_char fp @ padding_char fp @ closing_char fp)"
    unfolding pad by (auto simp: repeat_def)
  note eq = calculate_widths_eq[OF fields ws]
  define wm where "wm = widths lay ''message''"
  define wr where "wr = widths lay ''reason''"
  define wst where "wst = widths lay ''status''"
  have wm: "wm = clamp fm (len message + decoration fm)"
    using eq(1) texts(1) by (simp add: wm_def narrow_width decoration_def add.assoc)
  have wm0: "0 \<le> wm"
  proof -
    have "decoration fm \<le> wm" unfolding wm by (rule clamp_bounds(1)[OF room(1) len_ge0])
    moreover have "0 \<le> decoration fm" by (simp add: decoration_def)
    ultimately show ?thesis by linarith
  qed
  have mcol: "\<forall>l\<in>set (message_lines lay). len l = wm \<and> narrow wcw l"
  proof -
    from format_field_column[OF fields(1) _ sp texts(1) _ _ room(1) wm words(1)] decorations(1)
    obtain ls where "format_field wcw cfg message ''message'' wm = Inr ls"
      "\<forall>l\<in>set ls. len l = wm \<and> narrow wcw l" by auto
    with ms show ?thesis by (simp add: wm_def)
  qed
  have rcol: "reason_lines lay \<noteq> [] \<and> 0 \<le> wr \<and>
      (\<forall>l\<in>set (reason_lines lay). len l = wr \<and> narrow wcw l)" if t: "truthy reason"
  proof -
    from t have pos: "0 < len (text_of reason)" by (cases reason) (simp_all add: len_def)
    have w: "wr = clamp fr (len (text_of reason) + decoration fr)"
      using eq(2) t texts(2) by (simp add: wr_def narrow_width decoration_def add.assoc)
    have p: "0 < wr" using clamp_bounds(4)[OF room(2) _ pos] by (simp add: w)
    have wd: "wrap fr \<longrightarrow> split (text_of reason) \<noteq> []" using words(2) t by simp
    from format_field_column[OF fields(2) _ sp texts(2) _ _ room(2) w wd] decorations(2)
    obtain ls where "format_field wcw cfg (text_of reason) ''reason'' wr = Inr ls" "ls \<noteq> []"
      "\<forall>l\<in>set ls. len l = wr \<and> narrow wcw l" by auto
    with rs t p show ?thesis by (simp add: optional_lines_def wr_def)
  qed
  have scol: "status_lines lay \<noteq> [] \<and> 0 \<le> wst \<and>
      (\<forall>l\<in>set (status_lines lay). len l = wst \<and> narrow wcw l)" if t: "truthy status"
  proof -
    from t have pos: "0 < len (text_of status)" by (cases status) (simp_all add: len_def)
    have w: "wst = clamp fs (len (text_of status) + decoration fs)"
      using eq(3) t texts(3) by (simp add: wst_def narrow_width decoration_def add.assoc)
    have p: "0 < wst" using clamp_bounds(4)[OF room(3) _ pos] by (simp add: w)
    have wd: "wrap fs \<longrightarrow> split (text_of status) \<noteq> []" using status_unwrapped by simp
    have su: "''status'' = ''status'' \<longrightarrow> \<not> wrap fs" using status_unwrapped by simp
    from format_field_column[OF fields(3) _ sp texts(3) _ _ room(3) w wd su] decorations(3)
    obtain ls where "format_field wcw cfg (text_of status) ''status'' wst = Inr ls" "ls \<noteq> []"
      "\<forall>l\<in>set ls. len l = wst \<and> narrow wcw l" by auto
    with ss t p show ?thesis by (simp add: optional_lines_def wst_def)
  qed
  define k where "k = (if truthy reason then wr else 0) + (if truthy status then wst else 0)"
  have shape: "\<exists>m r t. narrow wcw m \<and> len m = wm \<and> narrow wcw (r @ t) \<and> len (r @ t) = k \<and>
        (\<forall>sty. line_parts sty cfg lay status i =
           Inr ([sty m (color fm) (style fm), sty (padding lay) (color fp) (style fp)] @
                (if truthy reason then [sty r (color fr) (style fr)] else []) @
                (if truthy status then [if i = 0 then sty t (color fs) (style fs) else t]
                 else []))) \<and>
        (\<not> truthy reason \<longrightarrow> r = []) \<and> (\<not> truthy status \<longrightarrow> t = [])" for i
  proof -
    define a where "a = (if i < length (message_lines lay) then message_lines lay ! i
                else repeat [space] wm)"
    define r where "r = (if truthy reason then
             (if i < length (reason_lines lay) then reason_lines lay ! i
                   else repeat [space] wr) else [])"
    define t where "t = (if truthy status then
           (if i = 0 then status_lines lay ! 0 else repeat [space] wst) else [])"
    have rl: "reason_lines lay \<noteq> [] \<longleftrightarrow> truthy reason" using rne rcol by auto
    have sl: "status_lines lay \<noteq> [] \<longleftrightarrow> truthy status" using sne scol by auto
    have l: "line_parts sty cfg lay status i =
           Inr ([sty a (color fm) (style fm), sty (padding lay) (color fp) (style fp)] @
                (if truthy reason then [sty r (color fr) (style fr)] else []) @
                (if truthy status then [if i = 0 then sty t (color fs) (style fs) else t]
                 else []))" for sty
      using rl sl
      by (simp add: line_parts_eq[OF fields] a_def r_def t_def wm_def wr_def wst_def)
    have a: "len a = wm \<and> narrow wcw a"
      unfolding a_def using sp wm0 mcol by (rule column_cell)
    have r: "len r = (if truthy reason then wr else 0) \<and> narrow wcw r"
    proof (cases "truthy reason")
      case True
      from rcol[OF True] have "reason_lines lay \<noteq> []" "0 \<le> wr"
        "\<forall>l\<in>set (reason_lines lay). len l = wr \<and> narrow wcw l" by auto
      then show ?thesis using True column_cell[of wcw wr "reason_lines lay" i] sp
        by (simp add: r_def)
    next
      case False
      then show ?thesis by (simp add: r_def)
    qed
    have t: "len t = (if truthy status then wst else 0) \<and> narrow wcw t"
    proof (cases "truthy status")
      case True
      from scol[OF True] have s: "status_lines lay \<noteq> []" "0 \<le> wst"
        "\<forall>l\<in>set (status_lines lay). len l = wst \<and> narrow wcw l" by auto
      then have "len (status_lines lay ! 0) = wst \<and> narrow wcw (status_lines lay ! 0)"
        by (cases "status_lines lay") auto
      then show ?thesis using True s sp
        by (auto simp: t_def len_repeat_space' narrow_spaces)
    next
      case False
      then show ?thesis by (simp add: t_def)
    qed
    have rt: "narrow wcw (r @ t)" "len (r @ t) = k" using r t by (simp_all add: k_def)
    have e: "\<not> truthy reason \<longrightarrow> r = []" "\<not> truthy status \<longrightarrow> t = []"
      by (simp_all add: r_def t_def)
    show ?thesis using a rt l e by blast
  qed
  with lay pc show ?thesis by blast
qed

text \<open>
  The measure of the alignment claim: a line without its style escape sequences (each
  from ESC to the next \<open>m\<close>), and the codes of \<open>text_styles.py\<close>, all of that form.
\<close>

fun strip_ansi :: "pystr \<Rightarrow> pystr" and skip_sgr :: "pystr \<Rightarrow> pystr" where
  "strip_ansi [] = []"
| "strip_ansi (c # cs) = (if c = 27 then skip_sgr cs else c # strip_ansi cs)"
| "skip_sgr [] = []"
| "skip_sgr (c # cs) = (if c = 109 then strip_ansi cs else skip_sgr cs)"

definition sgr :: "pystr \<Rightarrow> bool" where
  "sgr code \<longleftrightarrow>
     (case code of [] \<Rightarrow> True
      | c # cs \<Rightarrow> c = 27 \<and> cs \<noteq> [] \<and> last cs = 109 \<and> 109 \<notin> set (butlast cs))"

lemma skip_sgr_inner: "109 \<notin> set inner \<Longrightarrow> skip_sgr (inner @ 109 # rest) = strip_ansi rest"
  by (induction inner) auto

lemma strip_sgr: "sgr code \<Longrightarrow> strip_ansi (code @ rest) = strip_ansi rest"
proof (cases code)
  case Nil
  then show ?thesis by simp
next
  case (Cons c cs)
  assume "sgr code"
  with Cons have c: "c = 27" "cs \<noteq> []" "last cs = 109" "109 \<notin> set (butlast cs)"
    by (simp_all add: sgr_def)
  then have "cs = butlast cs @ [109]" using append_butlast_last_id[of cs] by simp
  then have e: "cs @ rest = butlast cs @ 109 # rest"
    by (metis append.assoc append_Cons append_Nil)
  have "strip_ansi (code @ rest) = skip_sgr (cs @ rest)" using Cons c(1) by simp
  also have "\<dots> = skip_sgr (butlast cs @ 109 # rest)" by (simp only: e)
  also have "\<dots> = strip_ansi rest" using c(4) by (rule skip_sgr_inner)
  finally show ?thesis .
qed

lemma strip_plain: "27 \<notin> set t \<Longrightarrow> strip_ansi (t @ rest) = t @ strip_ansi rest"
  by (induction t) auto

lemma strip_codes: "\<forall>c\<in>set codes. sgr c \<Longrightarrow> strip_ansi (concat codes @ rest) = strip_ansi rest"
  by (induction codes) (simp_all add: strip_sgr)

lemma color_codes_sgr: "list_all (\<lambda>(k, v). sgr v) COLOR_CODES"
  by (simp add: COLOR_CODES_def esc_def u_def sgr_def)

lemma style_codes_sgr: "list_all (\<lambda>(k, v). sgr v) STYLE_CODES"
  by (simp add: STYLE_CODES_def esc_def u_def sgr_def)

lemma get_code_sgr: "list_all (\<lambda>(k, v). sgr v) table \<Longrightarrow> sgr (get_code table key)"
proof (cases "map_of table key")
  case None
  then show ?thesis by (simp add: get_code_def sgr_def)
next
  case (Some v)
  assume "list_all (\<lambda>(k, v). sgr v) table"
  moreover from Some have "(key, v) \<in> set table" by (rule map_of_SomeD)
  ultimately have "sgr v" by (auto simp: list_all_iff)
  with Some show ?thesis by (simp add: get_code_def)
qed

lemma strip_apply_style:
  assumes "27 \<notin> set t"
  shows "strip_ansi (apply_style t c s @ rest) = t @ strip_ansi rest"
proof -
  note cc = get_code_sgr[OF color_codes_sgr]
  have sc: "\<forall>x\<in>set (map (\<lambda>s. get_code STYLE_CODES (strip s)) xs). sgr x" for xs
    using get_code_sgr[OF style_codes_sgr] by simp
  show ?thesis
    using assms
    by (simp add: apply_style_def Let_def strip_sgr[OF cc] strip_codes[OF sc] strip_plain)
qed

lemma narrow_no_esc: "wcw 27 \<noteq> 1 \<Longrightarrow> narrow wcw s \<Longrightarrow> 27 \<notin> set s"
  by (auto simp: narrow_def)

text \<open>
  Where the lines do align. Widths are display columns, but \<open>ljust\<close>, \<open>rjust\<close>,
  slicing and \<open>len\<close> of the decorations count code points, and the two agree on
  one-column characters. So: when every character of message, reason, status and of the
  leading and closing strings of their fields occupies one column (as the space does, and
  ESC does not), the status field is not wrapped, every \<open>max_width\<close> that is set exceeds
  the length of its field's decoration, a wrapped message or reason contains a word, and
  the padding field's strings hold no ESC, then all lines composed by \<open>format_line\<close> have
  the same display width once their escape sequences are removed.
\<close>

theorem aligned_lines:
  assumes fields: "fields_dict cfg ''message'' = Some fm" "fields_dict cfg ''reason'' = Some fr"
      "fields_dict cfg ''status'' = Some fs" "fields_dict cfg ''padding'' = Some fp"
    and sp: "wcw space = 1" and esc: "wcw 27 \<noteq> 1"
    and texts: "narrow wcw message" "narrow wcw (text_of reason)" "narrow wcw (text_of status)"
    and decorations: "narrow wcw (leading_char fm @ closing_char fm)"
      "narrow wcw (leading_char fr @ closing_char fr)"
      "narrow wcw (leading_char fs @ closing_char fs)"
    and room: "roomy fm" "roomy fr" "roomy fs"
    and status_unwrapped: "\<not> wrap fs"
    and words: "wrap fm \<longrightarrow> split message \<noteq> []"
      "wrap fr \<and> truthy reason \<longrightarrow> split (text_of reason) \<noteq> []"
    and padding_plain: "27 \<notin> set (leading_char fp @ padding_char fp @ closing_char fp)"
  shows "\<exists>lay ls w. field_lines wcw cfg message reason status = Inr lay \<and>
     formatted_lines apply_style cfg lay status = Inr ls \<and>
     format_line wcw cfg message reason status = Inr (join [newline] ls) \<and>
     length ls = max_lines lay \<and>
     (\<forall>l\<in>set ls. wcswidth wcw (strip_ansi l) = w)"
proof -
  from line_shape[OF fields sp texts decorations room status_unwrapped words]
  obtain lay wm k where lay: "field_lines wcw cfg message reason status = Inr lay"
    and shape: "\<And>i. \<exists>m r t. narrow wcw m \<and> len m = wm \<and> narrow wcw (r @ t) \<and> len (r @ t) = k \<and>
        (\<forall>sty. line_parts sty cfg lay status i =
           Inr ([sty m (color fm) (style fm), sty (padding lay) (color fp) (style fp)] @
                (if truthy reason then [sty r (color fr) (style fr)] else []) @
                (if truthy status then [if i = 0 then sty t (color fs) (style fs) else t]
                 else []))) \<and>
        (\<not> truthy reason \<longrightarrow> r = []) \<and> (\<not> truthy status \<longrightarrow> t = [])"
    and pc: "set (padding lay) \<subseteq> set (leading_char fp @ padding_char fp @ closing_char fp)"
    by blast
  have pe: "27 \<notin> set (padding lay)" using pc padding_plain by blast
  define line where "line = (\<lambda>i. concat (the_parts (line_parts apply_style cfg lay status i)))"
  define ls where "ls = map line [0 ..< max_lines lay]"
  have fl: "formatted_lines apply_style cfg lay status = Inr ls"
    by (simp add: formatted_lines_eq[OF fields] line_def ls_def)
  have f: "format_line wcw cfg message reason status = Inr (join [newline] ls)"
    using lay fl by (simp add: format_line_def format_line_with_def)
  define w where "w = (if \<exists>c\<in>set (padding lay). wcw c < 0 then - 1
      else wm + sum_list (map wcw (padding lay)) + k)"
  have "wcswidth wcw (strip_ansi (line i)) = w" for i
  proof -
    from shape[of i] obtain m r t where m: "narrow wcw m" "len m = wm"
      and rt: "narrow wcw (r @ t)" "len (r @ t) = k"
      and l: "line_parts apply_style cfg lay status i =
           Inr ([apply_style m (color fm) (style fm),
                 apply_style (padding lay) (color fp) (style fp)] @
                (if truthy reason then [apply_style r (color fr) (style fr)] else []) @
                (if truthy status then [if i = 0 then apply_style t (color fs) (style fs) else t]
                 else []))"
      and e: "\<not> truthy reason \<longrightarrow> r = []" "\<not> truthy status \<longrightarrow> t = []"
      by blast
    have ne: "27 \<notin> set m" "27 \<notin> set r" "27 \<notin> set t"
      using m(1) rt(1) esc by (auto simp: narrow_def)
    have t1: "strip_ansi (if truthy status
          then concat [if i = 0 then apply_style t (color fs) (style fs) else t] else []) = t"
      using e(2) ne(3) strip_apply_style[OF ne(3), of "color fs" "style fs" "[]"]
        strip_plain[OF ne(3), of "[]"] by simp
    have r1: "strip_ansi ((if truthy reason then apply_style r (color fr) (style fr) else []) @
          rest) = r @ strip_ansi rest" for rest
      using e(1) strip_apply_style[OF ne(2)] by simp
    have "line i = apply_style m (color fm) (style fm) @
        (apply_style (padding lay) (color fp) (style fp) @
         ((if truthy reason then apply_style r (color fr) (style fr) else []) @
          (if truthy status
           then concat [if i = 0 then apply_style t (color fs) (style fs) else t] else [])))"
      by (simp add: line_def l the_parts_def)
    then have "strip_ansi (line i) = m @ padding lay @ (r @ t)"
      by (simp only: strip_apply_style[OF ne(1)] strip_apply_style[OF pe] r1 t1)
    then show ?thesis using wcswidth_around[OF m(1) rt(1), of "padding lay"] m(2) rt(2)
      by (simp add: w_def)
  qed
  then have "\<forall>l\<in>set ls. wcswidth wcw (strip_ansi l) = w" by (auto simp: ls_def)
  moreover have "length ls = max_lines lay" by (simp add: ls_def)
  ultimately show ?thesis using lay fl f by blast
qed

text \<open>The display widths of the lines of a rendered string, escape sequences removed.\<close>

definition display_widths :: "(codepoint \<Rightarrow> int) \<Rightarrow> error + pystr \<Rightarrow> error + int list" where
  "display_widths wcw r =
     (case r of Inl e \<Rightarrow> Inl e
      | Inr out \<Rightarrow> Inr (map (\<lambda>l. wcswidth wcw (strip_ansi l)) (split_on newline out)))"

definition styled_config :: LogConfig where
  "styled_config =
     \<lparr>total_width = 24,
      fields_dict =
        [''message'' \<mapsto> default_message\<lparr>max_width := Some 8\<rparr>, ''padding'' \<mapsto> default_padding,
         ''reason'' \<mapsto> default_reason,
         ''status'' \<mapsto> default_status\<lparr>color := Some (u ''green''), style := Some (u ''bold'')\<rparr>]\<rparr>"

lemma styled_fields:
  "fields_dict styled_config ''message'' = Some (default_message\<lparr>max_width := Some 8\<rparr>)"
  "fields_dict styled_config ''padding'' = Some default_padding"
  "fields_dict styled_config ''reason'' = Some default_reason"
  "fields_dict styled_config ''status'' =
     Some (default_status\<lparr>color := Some (u ''green''), style := Some (u ''bold'')\<rparr>)"
  by (simp_all add: styled_config_def)



text \<open>
  Claim C5 fails on the code for wide characters. The width of the message field is
  computed in display columns (\<open>wcswidth\<close>), and a missing line is filled with that many
  blanks, but \<open>ljust\<close> pads a wrapped line to that number of code points: the message of
  three ideographs and \<open>ab\<close>, wrapped at 8 columns, has the first line \<open>ljust\<close> of the
  three ideographs (6 columns, 3 code points) with 5 blanks, 11 columns instead of 8. The
  two output lines, each the message column and the padding column, are 27 and 24 columns
  wide.
\<close>

theorem aligned_lines_counterexample:
  "display_widths wcwidth
     (format_line wcwidth small_config ([20013, 20013, 20013] @ u '' ab'') None None) =
   Inr [27, 24]"
  by (simp add: display_widths_def format_eval widths_eval config_eval wrap_eval)

theorem aligned_lines_witness:
  "display_widths wcwidth (format_line wcwidth styled_config (u ''Disk almost full'')
      (Some (u ''9%'')) (Some (u ''X''))) = Inr [24, 24, 24] \<and>
   (\<exists>lay ls w. field_lines wcwidth styled_config (u ''Disk almost full'') (Some (u ''9%'')) (Some (u ''X'')) = Inr lay \<and>
     formatted_lines apply_style styled_config lay (Some (u ''X'')) = Inr ls \<and>
     format_line wcwidth styled_config (u ''Disk almost full'') (Some (u ''9%'')) (Some (u ''X'')) = Inr (join [newline] ls) \<and>
     length ls = max_lines lay \<and>
     (\<forall>l\<in>set ls. wcswidth wcwidth (strip_ansi l) = w))"
proof -
  let ?fm = "default_message\<lparr>max_width := Some 8\<rparr>"
  let ?fs = "default_status\<lparr>color := Some (u ''green''), style := Some (u ''bold'')\<rparr>"
  have sp: "wcwidth space = 1" and esc: "wcwidth 27 \<noteq> 1"
    by (simp_all add: wcwidth_def space_def)
  have texts: "narrow wcwidth (u ''Disk almost full'')" "narrow wcwidth (text_of (Some (u ''9%'')))"
      "narrow wcwidth (text_of (Some (u ''X'')))"
    by (simp_all add: narrow_def u_def wcwidth_def)
  have decorations: "narrow wcwidth (leading_char ?fm @ closing_char ?fm)"
      "narrow wcwidth (leading_char default_reason @ closing_char default_reason)"
      "narrow wcwidth (leading_char ?fs @ closing_char ?fs)"
    by (simp_all add: narrow_def config_eval)
  have room: "roomy ?fm" "roomy default_reason" "roomy ?fs"
    by (simp_all add: roomy_def decoration_def config_eval)
  have unwrapped: "\<not> wrap ?fs" by (simp add: config_eval)
  have words: "wrap ?fm \<longrightarrow> split (u ''Disk almost full'') \<noteq> []"
      "wrap default_reason \<and> truthy (Some (u ''9%'')) \<longrightarrow> split (text_of (Some (u ''9%''))) \<noteq> []"
    by (simp_all add: config_eval wrap_eval)
  have pad: "27 \<notin> set (leading_char default_padding @ padding_char default_padding @
      closing_char default_padding)"
    by (simp add: config_eval)
  have e: "display_widths wcwidth (format_line wcwidth styled_config (u ''Disk almost full'')
      (Some (u ''9%'')) (Some (u ''X''))) = Inr [24, 24, 24]"
    by (simp add: display_widths_def format_eval widths_eval config_eval wrap_eval
        styled_config_def get_code_def COLOR_CODES_def STYLE_CODES_def esc_def strip_def
        comma_def)
  show ?thesis
    using e aligned_lines[OF styled_fields(1) styled_fields(3) styled_fields(4) styled_fields(2)
        sp esc texts decorations room unwrapped words pad]
    by blast
qed

section \<open>The store of configuration objects\<close>

text \<open>
  \<open>DefaultsManager\<close> copies configuration objects and then assigns to attributes of the
  copies, so the objects live in a store: a list of objects, an address being an index and
  allocation appending. A value is an immutable scalar or a reference. An object has a
  class and its items: the entries of a dictionary, or the attributes of an instance (its
  \<open>__dict__\<close>), in insertion order. Dictionaries carry the role they play in a \<open>LogConfig\<close>
  (\<open>fields\<close>, \<open>level_styles\<close>, the styles of one level, the style of one field); no
  operation below looks at the role.
\<close>

type_synonym addr = nat

datatype scalar = SNone | SBool bool | SInt int | SStr pystr

datatype pyval = Scalar scalar | Ref addr

datatype kind = LogConfigObj | FieldConfigObj | FieldsDict | LevelStylesDict | LevelDict | StyleDict

datatype obj = Obj kind "(string \<times> pyval) list"

type_synonym heap = "obj list"

fun kind_of :: "obj \<Rightarrow> kind" where
  "kind_of (Obj k items) = k"

fun items_of :: "obj \<Rightarrow> (string \<times> pyval) list" where
  "items_of (Obj k items) = items"











section \<open>The cascade: \<open>DefaultsManager\<close>\<close>










section \<open>Well-formed stores\<close>

text \<open>
  The declared shape of the configuration objects: a \<open>LogConfig\<close> has a scalar
  \<open>total_width\<close>, its \<open>fields\<close> is a dictionary of \<open>FieldConfig\<close> objects and its
  \<open>level_styles\<close> a dictionary of dictionaries of style dictionaries; the attributes of a
  \<open>FieldConfig\<close> and the entries of a style dictionary are scalars. Further attributes and
  any keys are allowed. A store is \<open>typed\<close> when every object has this shape and refers to
  objects of the store only; such a store has no cycles, an object referring only to objects
  of lower \<open>rank\<close>.
\<close>

fun rank :: "kind \<Rightarrow> nat" where
  "rank LogConfigObj = 4"
| "rank LevelStylesDict = 3"
| "rank FieldsDict = 2"
| "rank LevelDict = 2"
| "rank FieldConfigObj = 1"
| "rank StyleDict = 1"

fun allowed :: "kind \<Rightarrow> kind \<Rightarrow> bool" where
  "allowed LogConfigObj c = (c = FieldsDict \<or> c = LevelStylesDict)"
| "allowed FieldsDict c = (c = FieldConfigObj)"
| "allowed LevelStylesDict c = (c = LevelDict)"
| "allowed LevelDict c = (c = StyleDict)"
| "allowed FieldConfigObj c = False"
| "allowed StyleDict c = False"

fun child_ok :: "heap \<Rightarrow> kind \<Rightarrow> pyval \<Rightarrow> bool" where
  "child_ok h k (Scalar s) = (k = LogConfigObj \<or> k = FieldConfigObj \<or> k = StyleDict)"
| "child_ok h k (Ref a) = (a < length h \<and> allowed k (kind_of (h ! a)))"

fun has_kind :: "heap \<Rightarrow> pyval option \<Rightarrow> kind \<Rightarrow> bool" where
  "has_kind h (Some (Ref a)) k = (a < length h \<and> kind_of (h ! a) = k)"
| "has_kind h _ k = False"

fun is_scalar :: "pyval option \<Rightarrow> bool" where
  "is_scalar (Some (Scalar s)) = True"
| "is_scalar _ = False"

definition local_ok :: "heap \<Rightarrow> obj \<Rightarrow> bool" where
  "local_ok h ob \<longleftrightarrow>
     list_all (\<lambda>(key, v). child_ok h (kind_of ob) v) (items_of ob) \<and>
     (kind_of ob = LogConfigObj \<longrightarrow>
        is_scalar (map_of (items_of ob) ''total_width'') \<and>
        has_kind h (map_of (items_of ob) ''fields'') FieldsDict \<and>
        has_kind h (map_of (items_of ob) ''level_styles'') LevelStylesDict)"

definition typed :: "heap \<Rightarrow> bool" where
  "typed h \<longleftrightarrow> list_all (local_ok h) h"



text \<open>
  The structure below a value, to a given depth: what \<open>==\<close> compares, whatever the
  addresses are.
\<close>

datatype tree = Leaf scalar | Node kind "(string \<times> tree) list" | Cut

fun tree_of :: "nat \<Rightarrow> heap \<Rightarrow> pyval \<Rightarrow> tree" where
  "tree_of d h (Scalar s) = Leaf s"
| "tree_of 0 h (Ref a) = Cut"
| "tree_of (Suc d) h (Ref a) =
     (if a < length h
      then Node (kind_of (h ! a)) (map (\<lambda>(key, v). (key, tree_of d h v)) (items_of (h ! a)))
      else Cut)"



section \<open>Deep copies\<close>


fun copy_of :: "nat \<Rightarrow> heap \<Rightarrow> pyval \<Rightarrow> pyval \<Rightarrow> bool" where
  "copy_of n h (Scalar s) v' = (v' = Scalar s)"
| "copy_of n h (Ref a) (Ref a') =
     (n \<le> a' \<and> a' < length h \<and> kind_of (h ! a') = kind_of (h ! a) \<and>
      map fst (items_of (h ! a')) = map fst (items_of (h ! a)) \<and>
      (\<forall>d. tree_of d h (Ref a') = tree_of d h (Ref a)))"
| "copy_of n h (Ref a) (Scalar s) = False"






lemma typed_nth: "typed h \<Longrightarrow> a < length h \<Longrightarrow> local_ok h (h ! a)"
  by (simp add: typed_def list_all_length)

lemma child_valid: "child_ok h k v \<Longrightarrow> v = Ref a \<Longrightarrow> a < length h"
  by auto

lemma tree_of_append:
  "typed h \<Longrightarrow> (\<forall>a. v = Ref a \<longrightarrow> a < length h) \<Longrightarrow> tree_of d (h @ ext) v = tree_of d h v"
proof (induction d arbitrary: v)
  case 0
  then show ?case by (cases v) auto
next
  case (Suc d)
  show ?case
  proof (cases v)
    case (Scalar s)
    then show ?thesis by simp
  next
    case (Ref a)
    with Suc.prems have a: "a < length h" by simp
    from typed_nth[OF Suc.prems(1) a]
    have "\<forall>(key, x) \<in> set (items_of (h ! a)). \<forall>b. x = Ref b \<longrightarrow> b < length h"
      by (auto simp: local_ok_def list_all_iff)
    then have "map (\<lambda>(key, v). (key, tree_of d (h @ ext) v)) (items_of (h ! a)) =
               map (\<lambda>(key, v). (key, tree_of d h v)) (items_of (h ! a))"
      using Suc.IH[OF Suc.prems(1)] by (intro map_cong) auto
    with a Ref show ?thesis by (simp add: nth_append)
  qed
qed

lemma copy_of_append:
  "copy_of n h v v' \<Longrightarrow> typed h \<Longrightarrow> (\<forall>a. v = Ref a \<longrightarrow> a < length h) \<Longrightarrow>
   copy_of n (h @ ext) v v'"
  by (induction n h v v' rule: copy_of.induct) (auto simp: nth_append tree_of_append)





fun ref_ok :: "nat \<Rightarrow> heap \<Rightarrow> pyval \<Rightarrow> bool" where
  "ref_ok l h (Scalar s) = True"
| "ref_ok l h (Ref a) = (a < length h \<and> rank (kind_of (h ! a)) \<le> l)"


definition copies :: "nat \<Rightarrow> heap \<Rightarrow> (string \<times> pyval) list \<Rightarrow> (string \<times> pyval) list \<Rightarrow> bool" where
  "copies n h items items' \<longleftrightarrow>
     list_all2 (\<lambda>(key, v) (key', v'). key' = key \<and> copy_of n h v v') items items'"







lemma copies_append:
  assumes "copies n h items items'" "list_all (\<lambda>(key, v). ref_ok l h v) items" "typed h"
  shows "copies n (h @ ext) items items'"
  using assms unfolding copies_def
proof (induction items items' rule: list_all2_induct)
  case Nil
  then show ?case by simp
next
  case (Cons x xs y ys)
  obtain key v where x: "x = (key, v)" by (cases x)
  obtain key' v' where y: "y = (key', v')" by (cases y)
  from Cons x have "\<forall>a. v = Ref a \<longrightarrow> a < length h" by (cases v) auto
  with Cons x y have "copy_of n (h @ ext) v v'" by (auto intro: copy_of_append)
  with Cons x y show ?case by auto
qed









section \<open>Assignments to a copy\<close>











































section \<open>The same call on a later store\<close>

text \<open>
  A later store holds the objects of the first \<open>n\<close> addresses unchanged and \<open>k\<close> further
  objects of any content: what earlier calls allocated, in whatever state. A call on the
  later store proceeds as on the earlier one, with every new address moved up by \<open>k\<close>.
\<close>

definition shift :: "nat \<Rightarrow> nat \<Rightarrow> addr \<Rightarrow> addr" where
  "shift n k a = (if a < n then a else a + k)"

fun shift_val :: "nat \<Rightarrow> nat \<Rightarrow> pyval \<Rightarrow> pyval" where
  "shift_val n k (Scalar s) = Scalar s"
| "shift_val n k (Ref a) = Ref (shift n k a)"

definition shift_items :: "nat \<Rightarrow> nat \<Rightarrow> (string \<times> pyval) list \<Rightarrow> (string \<times> pyval) list" where
  "shift_items n k items = map (\<lambda>(key, v). (key, shift_val n k v)) items"

fun shift_obj :: "nat \<Rightarrow> nat \<Rightarrow> obj \<Rightarrow> obj" where
  "shift_obj n k (Obj kd items) = Obj kd (shift_items n k items)"






lemma kind_of_shift [simp]: "kind_of (shift_obj n k ob) = kind_of ob"
  by (cases ob) simp

lemma items_of_shift [simp]: "items_of (shift_obj n k ob) = shift_items n k (items_of ob)"
  by (cases ob) simp




























section \<open>The default configuration in the store\<close>










section \<open>Properties of the cascade\<close>





end
